theory Spec2Isabelle
  imports Main
begin

section \<open>Numbers of the store\<close>

text \<open>
  A Python \<^verbatim>\<open>int\<close> is unbounded, a column declared \<^verbatim>\<open>INTEGER\<close> is not.  At the border
  between the two:
  \<^item> binding a Python \<^verbatim>\<open>int\<close> outside the 64-bit signed range to a \<^verbatim>\<open>?\<close> makes \<^verbatim>\<open>execute\<close>
    raise \<^verbatim>\<open>OverflowError\<close>;
  \<^item> SQLite computes \<^verbatim>\<open>+\<close> and \<^verbatim>\<open>-\<close> of two integers in 64 bits, and when the result does
    not fit, or when an operand is a \<^verbatim>\<open>REAL\<close> already, on the operands converted to
    binary64, with a \<^verbatim>\<open>REAL\<close> as the result;
  \<^item> a \<^verbatim>\<open>REAL\<close> written to a column of \<^verbatim>\<open>INTEGER\<close> affinity is stored as an integer when it
    is a whole number strictly between the least and the greatest 64-bit integer, and
    as a \<^verbatim>\<open>REAL\<close> otherwise;
  \<^item> Python reads a \<^verbatim>\<open>REAL\<close> as a \<^verbatim>\<open>float\<close>, and \<^verbatim>\<open>int(row[0])\<close> gives its whole part.
\<close>

definition in_int64 :: "int \<Rightarrow> bool" where
  "in_int64 n = (- (2 ^ 63) \<le> n \<and> n < 2 ^ 63)"

text \<open>
  \<open>bit_length\<close> is Python's \<^verbatim>\<open>int.bit_length\<close>.  \<open>round53\<close> rounds a natural number to 53
  significant bits, to the nearest such number and to the even one on a tie, which is
  how binary64 rounds a value in its normal range.  \<open>to_double\<close> does it for an integer
  of either sign: the conversion of an integer to binary64, and the rounding of an
  exact sum or difference of whole numbers.
\<close>

fun bit_length :: "nat \<Rightarrow> nat" where
  "bit_length n = (if n = 0 then 0 else Suc (bit_length (n div 2)))"

definition round53 :: "nat \<Rightarrow> nat" where
  "round53 n =
     (if n < 2 ^ 53 then n
      else (let sh = bit_length n - 53;
                q = n div 2 ^ sh;
                r = n mod 2 ^ sh;
                h = 2 ^ (sh - 1)
            in (if r < h \<or> (r = h \<and> even q) then q else q + 1) * 2 ^ sh))"

definition to_double :: "int \<Rightarrow> int" where
  "to_double n = sgn n * int (round53 (nat \<bar>n\<bar>))"

text \<open>
  A number in one of the two columns: a 64-bit integer or a \<^verbatim>\<open>REAL\<close>.  Every \<^verbatim>\<open>REAL\<close> that
  the statements below produce is a whole number, the rounded sum or difference of whole
  numbers, and is kept as that number.  (Binary64 ends at \<open>2 ^ 1024\<close>; each statement
  moves a value by less than \<open>2 ^ 64\<close>, so no run comes near it, and the model has no
  infinity.)
\<close>

datatype sql_num = SqlInt int | SqlReal int

text \<open>\<^verbatim>\<open>int(row[0])\<close>\<close>

fun num_value :: "sql_num \<Rightarrow> int" where
  "num_value (SqlInt n) = n"
| "num_value (SqlReal x) = x"

text \<open>
  \<^verbatim>\<open>column + ?\<close> and \<^verbatim>\<open>column - ?\<close> with a bound 64-bit integer \<open>a\<close> (SQLite's \<^verbatim>\<open>OP_Add\<close>,
  \<^verbatim>\<open>OP_Subtract\<close>).
\<close>

fun sql_add :: "sql_num \<Rightarrow> int \<Rightarrow> sql_num" where
  "sql_add (SqlInt b) a =
     (if in_int64 (b + a) then SqlInt (b + a)
      else SqlReal (to_double (to_double b + to_double a)))"
| "sql_add (SqlReal x) a = SqlReal (to_double (x + to_double a))"

fun sql_sub :: "sql_num \<Rightarrow> int \<Rightarrow> sql_num" where
  "sql_sub (SqlInt b) a =
     (if in_int64 (b - a) then SqlInt (b - a)
      else SqlReal (to_double (to_double b - to_double a)))"
| "sql_sub (SqlReal x) a = SqlReal (to_double (x - to_double a))"

text \<open>What a column of \<^verbatim>\<open>INTEGER\<close> affinity stores for a computed value.\<close>

fun integer_affinity :: "sql_num \<Rightarrow> sql_num" where
  "integer_affinity (SqlInt n) = SqlInt n"
| "integer_affinity (SqlReal x) =
     (if - (2 ^ 63) < x \<and> x < 2 ^ 63 - 1 then SqlInt x else SqlReal x)"

section \<open>The store\<close>

text \<open>
  The bot keeps its state in one SQLite file (\<^verbatim>\<open>db.py\<close>, \<^verbatim>\<open>init_db\<close>).  Every table is a
  field of the record \<open>db\<close>.  A table whose rows are only ever reached through their
  primary key is a map from the key to the other columns; the two tables that are read
  with \<^verbatim>\<open>ORDER BY id\<close> (\<^verbatim>\<open>orders\<close>, \<^verbatim>\<open>links\<close>) are lists of rows that carry their id.
  Columns that no modelled operation reads (\<^verbatim>\<open>created_at\<close>, \<^verbatim>\<open>used_at\<close>, the receipt
  columns) are left out.  Keys (user, order, link and deposit ids) are only compared, never
  computed with, and are integers; the two columns the store computes with
  (\<^verbatim>\<open>wallets.balance\<close>, \<^verbatim>\<open>referral_profits.total_profit\<close>) hold the numbers of SQLite, see
  \<open>sql_num\<close> below.
\<close>

record user_row =
  username :: "string option"
  first_name :: "string option"
  referrer_id :: "int option"

record deposit_row =
  dep_user_id :: int
  dep_amount :: int
  dep_status :: string

record order_row =
  order_id :: int
  order_user_id :: int
  plan_months :: int
  order_amount :: int
  order_status :: string
  delivered_link :: "string option"

record link_row =
  link_id :: int
  link :: string
  is_used :: int
  used_by_order_id :: "int option"
  used_by_user_id :: "int option"

text \<open>
  A \<^verbatim>\<open>datetime\<close> without time zone and with \<^verbatim>\<open>microsecond = 0\<close> (the handlers call
  \<^verbatim>\<open>replace(microsecond=0)\<close> on every clock reading).  \<^verbatim>\<open>subscriptions.expires_at\<close> holds
  the \<^verbatim>\<open>isoformat()\<close> text of such a value and is read back with \<^verbatim>\<open>fromisoformat\<close>; the
  model stores the value itself.
\<close>

record datetime =
  year :: int
  month :: int
  day :: int
  hour :: int
  minute :: int
  second :: int

record sub_row =
  expires_at :: datetime
  reminded_before_expiry :: int
  notified_expired :: int

text \<open>
  \<open>orders_seq\<close> and \<open>links_seq\<close> are the \<^verbatim>\<open>AUTOINCREMENT\<close> counters of the two tables
  (SQLite's \<^verbatim>\<open>sqlite_sequence\<close>): the largest id handed out so far.
\<close>

record db =
  users :: "int \<rightharpoonup> user_row"
  wallets :: "int \<rightharpoonup> sql_num"
  referral_profits :: "int \<rightharpoonup> sql_num"
  deposit_requests :: "int \<rightharpoonup> deposit_row"
  subscriptions :: "int \<rightharpoonup> sub_row"
  orders :: "order_row list"
  orders_seq :: int
  links :: "link_row list"
  links_seq :: int

text \<open>\<^verbatim>\<open>init_db\<close> on a new file: every table empty.\<close>

definition empty_db :: db where
  "empty_db = \<lparr>users = Map.empty, wallets = Map.empty, referral_profits = Map.empty,
     deposit_requests = Map.empty, subscriptions = Map.empty, orders = [], orders_seq = 0,
     links = [], links_seq = 0\<rparr>"

section \<open>Wallet\<close>

text \<open>\<^verbatim>\<open>get_wallet_balance\<close>: the stored balance, 0 when the user has no wallet row.\<close>

definition get_wallet_balance :: "int \<Rightarrow> db \<Rightarrow> int" where
  "get_wallet_balance user_id s =
     (case wallets s user_id of None \<Rightarrow> 0 | Some v \<Rightarrow> num_value v)"

text \<open>\<^verbatim>\<open>INSERT INTO wallets(user_id, balance) VALUES(?, 0) ON CONFLICT(user_id) DO NOTHING\<close>\<close>

definition ensure_wallet :: "int \<Rightarrow> (int \<rightharpoonup> sql_num) \<Rightarrow> (int \<rightharpoonup> sql_num)" where
  "ensure_wallet user_id w =
     (case w user_id of None \<Rightarrow> w(user_id \<mapsto> SqlInt 0) | Some _ \<Rightarrow> w)"

text \<open>
  \<^verbatim>\<open>add_wallet_balance\<close>: creates the row if needed, adds the amount, commits, and returns
  the balance read back.  An amount outside the 64-bit range raises \<^verbatim>\<open>OverflowError\<close>
  (\<open>None\<close>) when the \<^verbatim>\<open>UPDATE\<close> is executed: nothing is committed then, and the caller's
  store is as it was.
\<close>

definition add_wallet_balance :: "int \<Rightarrow> int \<Rightarrow> db \<Rightarrow> (int \<times> db) option" where
  "add_wallet_balance user_id amount s =
     (if \<not> in_int64 amount then None
      else (let w = ensure_wallet user_id (wallets s);
                w' = (case w user_id of
                        None \<Rightarrow> w
                      | Some v \<Rightarrow> w(user_id \<mapsto> integer_affinity (sql_add v amount)));
                s' = s\<lparr>wallets := w'\<rparr>
            in Some (get_wallet_balance user_id s', s')))"

text \<open>
  \<^verbatim>\<open>try_deduct_wallet\<close>: creates the row if needed and reads the balance.  When the
  balance is below the amount it returns \<^verbatim>\<open>(False, bal)\<close> without committing, so the
  connection closes with the inserted row discarded and the store is as it was.  Otherwise
  it subtracts, commits, and returns \<^verbatim>\<open>(True, new_bal)\<close> read back from the store.  The
  amount is compared in Python and bound only in the \<^verbatim>\<open>UPDATE\<close>, which raises
  \<^verbatim>\<open>OverflowError\<close> (\<open>None\<close>, nothing committed) for an amount outside the 64-bit range.
\<close>

definition try_deduct_wallet :: "int \<Rightarrow> int \<Rightarrow> db \<Rightarrow> ((bool \<times> int) \<times> db) option" where
  "try_deduct_wallet user_id amount s =
     (let w = ensure_wallet user_id (wallets s);
          bal = (case w user_id of None \<Rightarrow> 0 | Some v \<Rightarrow> num_value v)
      in if bal < amount then Some ((False, bal), s)
         else if \<not> in_int64 amount then None
         else (let w' = (case w user_id of
                           None \<Rightarrow> w
                         | Some v \<Rightarrow> w(user_id \<mapsto> integer_affinity (sql_sub v amount)));
                   s' = s\<lparr>wallets := w'\<rparr>
               in Some ((True, get_wallet_balance user_id s'), s')))"

text \<open>
  The wallet row of the user, if there is one, holds a 64-bit integer (and not a \<^verbatim>\<open>REAL\<close>
  left by an overflow).
\<close>

definition integer_balance :: "int \<Rightarrow> db \<Rightarrow> bool" where
  "integer_balance user_id s =
     (case wallets s user_id of
        None \<Rightarrow> True
      | Some (SqlInt b) \<Rightarrow> in_int64 b
      | Some (SqlReal x) \<Rightarrow> False)"

text \<open>A sequence of wallet calls on one user, with what each call reported.\<close>

datatype wallet_op = Credit int | TryDebit int

fun op_amount :: "wallet_op \<Rightarrow> int" where
  "op_amount (Credit a) = a"
| "op_amount (TryDebit a) = a"

text \<open>
  One call: what it returned (\<open>None\<close> when it raised) and the store it left.  A credit
  that returns has succeeded.
\<close>

fun wallet_call :: "int \<Rightarrow> wallet_op \<Rightarrow> db \<Rightarrow> (bool \<times> int) option \<times> db" where
  "wallet_call u (Credit a) s =
     (case add_wallet_balance u a s of
        None \<Rightarrow> (None, s)
      | Some (nb, s') \<Rightarrow> (Some (True, nb), s'))"
| "wallet_call u (TryDebit a) s =
     (case try_deduct_wallet u a s of
        None \<Rightarrow> (None, s)
      | Some (r, s') \<Rightarrow> (Some r, s'))"

text \<open>
  The trace of a run: for every call the operation, what it returned, and the balance
  stored for the user once the call is over.
\<close>

fun wallet_calls ::
  "int \<Rightarrow> wallet_op list \<Rightarrow> db \<Rightarrow> (wallet_op \<times> (bool \<times> int) option \<times> int) list \<times> db" where
  "wallet_calls u [] s = ([], s)"
| "wallet_calls u (c # cs) s =
     (let (r, s') = wallet_call u c s;
          (tr, s'') = wallet_calls u cs s'
      in ((c, r, get_wallet_balance u s') # tr, s''))"

text \<open>The sum of the amounts of the debits that returned \<^verbatim>\<open>True\<close>.\<close>

fun succeeded :: "(bool \<times> int) option \<Rightarrow> bool" where
  "succeeded None = False"
| "succeeded (Some (ok, b)) = ok"

fun debited :: "(wallet_op \<times> (bool \<times> int) option \<times> int) list \<Rightarrow> int" where
  "debited [] = 0"
| "debited ((Credit a, r, b) # tr) = debited tr"
| "debited ((TryDebit a, r, b) # tr) = (if succeeded r then a else 0) + debited tr"

text \<open>The sum of the amounts of the credits in a list of calls.\<close>

fun credit_total :: "wallet_op list \<Rightarrow> int" where
  "credit_total [] = 0"
| "credit_total (Credit a # cs) = a + credit_total cs"
| "credit_total (TryDebit a # cs) = credit_total cs"

section \<open>Links pool\<close>

text \<open>
  \<^verbatim>\<open>str.strip()\<close> removes the characters Python counts as white space from both ends.
  Strings are modelled with code points below 256; there the white space is 9 to 13,
  28 to 32, 133 and 160.
\<close>

definition py_isspace :: "char \<Rightarrow> bool" where
  "py_isspace c =
     (let n = (of_char c :: nat)
      in (9 \<le> n \<and> n \<le> 13) \<or> (28 \<le> n \<and> n \<le> 32) \<or> n = 133 \<or> n = 160)"

definition strip :: "string \<Rightarrow> string" where
  "strip s = rev (dropWhile py_isspace (rev (dropWhile py_isspace s)))"

text \<open>
  \<^verbatim>\<open>INSERT INTO links(link, is_used) VALUES(?, 0)\<close>: the column \<^verbatim>\<open>link\<close> is \<^verbatim>\<open>UNIQUE\<close>, so the
  statement raises (\<open>None\<close>) when a row with this value is stored, used or not; otherwise
  a row is appended under the next id with the other columns \<^verbatim>\<open>NULL\<close>.
\<close>

definition insert_link :: "string \<Rightarrow> db \<Rightarrow> db option" where
  "insert_link v s =
     (if v \<in> link ` set (links s) then None
      else Some (s\<lparr>links := links s @
                   [\<lparr>link_id = links_seq s + 1, link = v, is_used = 0,
                     used_by_order_id = None, used_by_user_id = None\<rparr>],
                 links_seq := links_seq s + 1\<rparr>))"

text \<open>The \<^verbatim>\<open>for ln in links\<close> loop of \<^verbatim>\<open>add_links\<close>, with the running count \<^verbatim>\<open>inserted\<close>.\<close>

fun add_links_loop :: "string list \<Rightarrow> int \<Rightarrow> db \<Rightarrow> int \<times> db" where
  "add_links_loop [] inserted s = (inserted, s)"
| "add_links_loop (v # lns) inserted s =
     (let v' = strip v
      in if v' = [] then add_links_loop lns inserted s
         else (case insert_link v' s of
                 None \<Rightarrow> add_links_loop lns inserted s
               | Some s' \<Rightarrow> add_links_loop lns (inserted + 1) s'))"

definition add_links :: "string list \<Rightarrow> db \<Rightarrow> int \<times> db" where
  "add_links lns s = (if lns = [] then (0, s) else add_links_loop lns 0 s)"

text \<open>\<^verbatim>\<open>count_links\<close>: the numbers of rows with \<^verbatim>\<open>is_used=0\<close> and with \<^verbatim>\<open>is_used=1\<close>.\<close>

definition count_links :: "db \<Rightarrow> int \<times> int" where
  "count_links s =
     (int (length (filter (\<lambda>r. is_used r = 0) (links s))),
      int (length (filter (\<lambda>r. is_used r = 1) (links s))))"

text \<open>\<^verbatim>\<open>SELECT id, link FROM links WHERE is_used=0 ORDER BY id ASC\<close>\<close>

definition available_links :: "db \<Rightarrow> link_row list" where
  "available_links s = sort_key link_id (filter (\<lambda>r. is_used r = 0) (links s))"

text \<open>The two \<^verbatim>\<open>UPDATE\<close> statements of \<^verbatim>\<open>pop_available_link_for_order\<close>, on one row each.\<close>

definition mark_link_used :: "int \<Rightarrow> int \<Rightarrow> int \<Rightarrow> link_row \<Rightarrow> link_row" where
  "mark_link_used lid oid uid r =
     (if link_id r = lid
      then r\<lparr>is_used := 1, used_by_order_id := Some oid, used_by_user_id := Some uid\<rparr>
      else r)"

definition mark_order_delivered :: "int \<Rightarrow> string \<Rightarrow> order_row \<Rightarrow> order_row" where
  "mark_order_delivered oid l r =
     (if order_id r = oid then r\<lparr>order_status := ''delivered'', delivered_link := Some l\<rparr>
      else r)"

text \<open>
  \<^verbatim>\<open>pop_available_link_for_order\<close>.  The body runs between \<^verbatim>\<open>BEGIN IMMEDIATE\<close> and
  \<^verbatim>\<open>COMMIT\<close>, so it is one step on the store: take the first row of the query above
  (\<^verbatim>\<open>LIMIT 1\<close>); without one return \<^verbatim>\<open>None\<close>; otherwise mark that link used by the order
  and the user, mark the order delivered with the link's text, and return the text.
\<close>

definition pop_available_link_for_order :: "int \<Rightarrow> int \<Rightarrow> db \<Rightarrow> string option \<times> db" where
  "pop_available_link_for_order oid uid s =
     (case available_links s of
        [] \<Rightarrow> (None, s)
      | row # _ \<Rightarrow>
          (Some (link row),
           s\<lparr>links := map (mark_link_used (link_id row) oid uid) (links s),
             orders := map (mark_order_delivered oid (link row)) (orders s)\<rparr>))"

text \<open>A sequence of allocation calls, each for an order id and a user id.\<close>

fun allocate_calls :: "(int \<times> int) list \<Rightarrow> db \<Rightarrow> string option list \<times> db" where
  "allocate_calls [] s = ([], s)"
| "allocate_calls ((oid, uid) # cs) s =
     (let (r, s') = pop_available_link_for_order oid uid s;
          (rs, s'') = allocate_calls cs s'
      in (r # rs, s''))"

text \<open>The tokens a run returned, in the order of the calls.\<close>

fun returned_tokens :: "string option list \<Rightarrow> string list" where
  "returned_tokens [] = []"
| "returned_tokens (None # rs) = returned_tokens rs"
| "returned_tokens (Some t # rs) = t # returned_tokens rs"

section \<open>Orders waiting for a link\<close>

text \<open>\<^verbatim>\<open>set_order_delivered\<close>\<close>

definition set_order_delivered :: "int \<Rightarrow> string \<Rightarrow> db \<Rightarrow> db" where
  "set_order_delivered oid l s = s\<lparr>orders := map (mark_order_delivered oid l) (orders s)\<rparr>"

text \<open>
  \<^verbatim>\<open>list_pending_orders(limit)\<close>: the orders with status \<^verbatim>\<open>paid_waiting_link\<close> by ascending
  id, cut by \<^verbatim>\<open>LIMIT\<close> (which SQLite ignores when it is negative).
\<close>

definition list_pending_orders :: "int \<Rightarrow> db \<Rightarrow> order_row list" where
  "list_pending_orders limit s =
     (let rows = sort_key order_id (filter (\<lambda>r. order_status r = ''paid_waiting_link'') (orders s))
      in if limit < 0 then rows else take (nat limit) rows)"

text \<open>
  The \<^verbatim>\<open>for o in pending\<close> loop of \<^verbatim>\<open>admin_links_fulfill\<close> with its counter \<^verbatim>\<open>sent\<close>.
  \<^verbatim>\<open>if not link: break\<close> leaves the loop on \<^verbatim>\<open>None\<close> and on the empty string; sending the
  message to the user changes nothing in the store.
\<close>

fun fulfill_loop :: "order_row list \<Rightarrow> int \<Rightarrow> db \<Rightarrow> int \<times> db" where
  "fulfill_loop [] sent s = (sent, s)"
| "fulfill_loop (r # rs) sent s =
     (case pop_available_link_for_order (order_id r) (order_user_id r) s of
        (None, s') \<Rightarrow> (sent, s')
      | (Some l, s') \<Rightarrow>
          if l = [] then (sent, s')
          else fulfill_loop rs (sent + 1) (set_order_delivered (order_id r) l s'))"

text \<open>
  What \<^verbatim>\<open>admin_links_fulfill\<close> answers: nothing to a caller who is no admin, "no pending
  order", "no link at all", or the number of orders served with the links left.
\<close>

datatype fulfill_reply = NotAdmin | NoPending | NoLinks | Sent int int

text \<open>
  \<^verbatim>\<open>admin_links_fulfill\<close>.  \<^verbatim>\<open>ADMIN_IDS\<close> is read from the environment at start-up and is a
  parameter here.
\<close>

definition admin_links_fulfill :: "int set \<Rightarrow> int \<Rightarrow> db \<Rightarrow> fulfill_reply \<times> db" where
  "admin_links_fulfill admin_ids caller s =
     (if caller \<notin> admin_ids then (NotAdmin, s)
      else (let pending = list_pending_orders 50 s
            in if pending = [] then (NoPending, s)
               else (let (sent, s') = fulfill_loop pending 0 s;
                         (av, used) = count_links s'
                     in if sent = 0 \<and> av = 0 then (NoLinks, s') else (Sent sent av, s'))))"

text \<open>The number of orders a reply reports as served.\<close>

fun sent_count :: "fulfill_reply \<Rightarrow> int" where
  "sent_count (Sent n av) = n"
| "sent_count _ = 0"

text \<open>
  A store with 51 orders waiting for a link (ids 1 to 51) and 51 unused links (ids 1 to
  51, pairwise different non-empty texts).
\<close>

definition backlog_db :: db where
  "backlog_db = empty_db
     \<lparr>orders := map (\<lambda>i. \<lparr>order_id = int i, order_user_id = 7, plan_months = 2,
                            order_amount = 150000, order_status = ''paid_waiting_link'',
                            delivered_link = None\<rparr>) [1..<52],
      orders_seq := 51,
      links := map (\<lambda>i. \<lparr>link_id = int i, link = replicate i CHR ''x'', is_used = 0,
                           used_by_order_id = None, used_by_user_id = None\<rparr>) [1..<52],
      links_seq := 51\<rparr>"

section \<open>Deposits and the referral commission\<close>

text \<open>\<^verbatim>\<open>get_user\<close>, \<^verbatim>\<open>get_deposit_request\<close>: the row under the key, if any.\<close>

definition get_user :: "int \<Rightarrow> db \<Rightarrow> user_row option" where
  "get_user user_id s = users s user_id"

definition get_deposit_request :: "int \<Rightarrow> db \<Rightarrow> deposit_row option" where
  "get_deposit_request dep_id s = deposit_requests s dep_id"

text \<open>\<^verbatim>\<open>UPDATE deposit_requests SET status=? WHERE id=?\<close>\<close>

definition set_deposit_status :: "int \<Rightarrow> string \<Rightarrow> db \<Rightarrow> db" where
  "set_deposit_status dep_id status s =
     (case deposit_requests s dep_id of
        None \<Rightarrow> s
      | Some d \<Rightarrow> s\<lparr>deposit_requests := (deposit_requests s)(dep_id \<mapsto> d\<lparr>dep_status := status\<rparr>)\<rparr>)"

text \<open>
  \<^verbatim>\<open>add_ref_profit\<close>: insert the amount as the referrer's total, or add it to the total
  already stored (\<^verbatim>\<open>ON CONFLICT(referrer_id) DO UPDATE SET total_profit = total_profit +
  excluded.total_profit\<close>).  An amount outside the 64-bit range raises \<^verbatim>\<open>OverflowError\<close>
  (\<open>None\<close>).  The total read back by \<^verbatim>\<open>get_referral_stats\<close> is 0 without a row.
\<close>

definition add_ref_profit :: "int \<Rightarrow> int \<Rightarrow> db \<Rightarrow> db option" where
  "add_ref_profit rid amount s =
     (if \<not> in_int64 amount then None
      else Some (s\<lparr>referral_profits := (referral_profits s)
             (rid \<mapsto> (case referral_profits s rid of
                        None \<Rightarrow> SqlInt amount
                      | Some t \<Rightarrow> integer_affinity (sql_add t amount)))\<rparr>))"

definition total_profit :: "int \<Rightarrow> db \<Rightarrow> int" where
  "total_profit rid s = (case referral_profits s rid of None \<Rightarrow> 0 | Some t \<Rightarrow> num_value t)"

text \<open>
  The referrer's wallet row and total, where present, hold 64-bit integers to which
  \<open>p\<close> can be added within 64 bits.
\<close>

definition integer_room :: "(int \<rightharpoonup> sql_num) \<Rightarrow> int \<Rightarrow> int \<Rightarrow> bool" where
  "integer_room tab key p =
     (case tab key of
        None \<Rightarrow> in_int64 p
      | Some (SqlInt b) \<Rightarrow> in_int64 b \<and> in_int64 (b + p)
      | Some (SqlReal x) \<Rightarrow> False)"

subsection \<open>The commission \<^verbatim>\<open>int(amount * REF_PERCENT)\<close>\<close>

text \<open>
  \<^verbatim>\<open>REF_PERCENT = 0.15\<close> is a Python \<^verbatim>\<open>float\<close>, an IEEE 754 binary64 number, so
  \<^verbatim>\<open>amount * REF_PERCENT\<close> converts the integer to binary64, multiplies in binary64 and
  \<^verbatim>\<open>int\<close> cuts the fraction off.  All of it is computed here on integers.
  (\<open>round53\<close> is the rounding of binary64, above.)
\<close>

text \<open>
  The binary64 number nearest to 0.15 is \<open>5404319552844595 / 2 ^ 55\<close> (hexadecimal
  \<^verbatim>\<open>0x1.3333333333333p-3\<close>).
\<close>

definition REF_PERCENT_mantissa :: nat where
  "REF_PERCENT_mantissa = 5404319552844595"

text \<open>
  \<open>ref_profit amount\<close> is \<^verbatim>\<open>int(amount * REF_PERCENT)\<close>.  The conversion of the integer
  rounds it to 53 bits and raises \<^verbatim>\<open>OverflowError\<close> (\<open>None\<close>) from \<open>2 ^ 1024\<close> on.  The
  exact product of the two binary64 numbers is \<open>f * 5404319552844595 / 2 ^ 55\<close>; it is
  rounded to 53 bits again, and \<^verbatim>\<open>int\<close> truncates towards zero.
\<close>

definition ref_profit :: "int \<Rightarrow> int option" where
  "ref_profit amount =
     (let f = round53 (nat \<bar>amount\<bar>)
      in if 2 ^ 1024 \<le> f then None
         else Some (sgn amount * int (round53 (f * REF_PERCENT_mantissa) div 2 ^ 55)))"

subsection \<open>The two review handlers\<close>

text \<open>
  What a review handler does for the caller: refuse a caller who is no admin, report a
  deposit that is missing or not pending as not reviewable, approve (with the owner's
  new balance), reject, or stop on an exception.
\<close>

datatype review_reply = NotAllowed | NotActionable | Approved int | Rejected | Raised

text \<open>
  \<^verbatim>\<open>deposit_approve\<close> and \<^verbatim>\<open>deposit_reject\<close> are coroutines.  Each call of a function of
  \<^verbatim>\<open>db.py\<close> is awaited, opens a connection of its own, and commits before it returns; the
  handlers open no transaction around their calls.  Between two such calls the event
  loop may run the calls of other handlers (aiogram handles the updates of
  \<^verbatim>\<open>start_polling\<close> as concurrent tasks).  So a running handler is a task: the place it
  has reached, with the local variables that are still read from there.  One step of a
  task is everything up to and including its next call of \<^verbatim>\<open>db.py\<close>.

  Messages to the users change nothing in the store, and a failed send is caught.
\<close>

datatype review_task =
    Approve_start int int
  | Approve_set_status int int int
  | Approve_credit_owner int int
  | Approve_get_user int int int
  | Approve_credit_referrer int int int
  | Approve_add_profit int int int
  | Reject_start int int
  | Reject_set_status int
  | Finished review_reply

text \<open>
  The arguments are: of the two \<open>start\<close> tasks the caller and the deposit id (from the
  callback data); of \<open>Approve_set_status\<close> the deposit id and the \<^verbatim>\<open>user_id\<close> and
  \<^verbatim>\<open>amount\<close> read from the deposit row; of \<open>Approve_credit_owner\<close> \<^verbatim>\<open>user_id\<close> and
  \<^verbatim>\<open>amount\<close>; of \<open>Approve_get_user\<close> \<^verbatim>\<open>user_id\<close>, \<^verbatim>\<open>amount\<close> and \<^verbatim>\<open>new_balance\<close>; of the
  last two \<^verbatim>\<open>referrer_id\<close>, \<^verbatim>\<open>profit\<close> and \<^verbatim>\<open>new_balance\<close>; of \<open>Reject_set_status\<close> the
  deposit id.

  \<^verbatim>\<open>if referrer_id and referrer_id != user_id\<close> takes a referrer id of 0 as none.  An
  exception ends the handler; what the earlier steps have committed stays.
\<close>

fun review_step :: "int set \<Rightarrow> review_task \<Rightarrow> db \<Rightarrow> review_task \<times> db" where
  "review_step admin_ids (Approve_start caller dep_id) s =
     (if caller \<notin> admin_ids then (Finished NotAllowed, s)
      else (case get_deposit_request dep_id s of
              None \<Rightarrow> (Finished NotActionable, s)
            | Some dep \<Rightarrow>
                if dep_status dep \<noteq> ''pending_admin'' then (Finished NotActionable, s)
                else (Approve_set_status dep_id (dep_user_id dep) (dep_amount dep), s)))"
| "review_step admin_ids (Approve_set_status dep_id user_id amount) s =
     (Approve_credit_owner user_id amount, set_deposit_status dep_id ''approved'' s)"
| "review_step admin_ids (Approve_credit_owner user_id amount) s =
     (case add_wallet_balance user_id amount s of
        None \<Rightarrow> (Finished Raised, s)
      | Some (new_balance, s') \<Rightarrow> (Approve_get_user user_id amount new_balance, s'))"
| "review_step admin_ids (Approve_get_user user_id amount new_balance) s =
     (case (case get_user user_id s of None \<Rightarrow> None | Some u \<Rightarrow> referrer_id u) of
        None \<Rightarrow> (Finished (Approved new_balance), s)
      | Some rid \<Rightarrow>
          if rid \<noteq> 0 \<and> rid \<noteq> user_id
          then (case ref_profit amount of
                  None \<Rightarrow> (Finished Raised, s)
                | Some profit \<Rightarrow>
                    if 0 < profit then (Approve_credit_referrer rid profit new_balance, s)
                    else (Finished (Approved new_balance), s))
          else (Finished (Approved new_balance), s))"
| "review_step admin_ids (Approve_credit_referrer rid profit new_balance) s =
     (case add_wallet_balance rid profit s of
        None \<Rightarrow> (Finished Raised, s)
      | Some (ref_new_balance, s') \<Rightarrow> (Approve_add_profit rid profit new_balance, s'))"
| "review_step admin_ids (Approve_add_profit rid profit new_balance) s =
     (case add_ref_profit rid profit s of
        None \<Rightarrow> (Finished Raised, s)
      | Some s' \<Rightarrow> (Finished (Approved new_balance), s'))"
| "review_step admin_ids (Reject_start caller dep_id) s =
     (if caller \<notin> admin_ids then (Finished NotAllowed, s)
      else (case get_deposit_request dep_id s of
              None \<Rightarrow> (Finished NotActionable, s)
            | Some dep \<Rightarrow>
                if dep_status dep \<noteq> ''pending_admin'' then (Finished NotActionable, s)
                else (Reject_set_status dep_id, s)))"
| "review_step admin_ids (Reject_set_status dep_id) s =
     (Finished Rejected, set_deposit_status dep_id ''rejected'' s)"
| "review_step admin_ids (Finished r) s = (Finished r, s)"

text \<open>The number of steps a task has before it at most.\<close>

fun steps_left :: "review_task \<Rightarrow> nat" where
  "steps_left (Approve_start caller dep_id) = 6"
| "steps_left (Approve_set_status dep_id user_id amount) = 5"
| "steps_left (Approve_credit_owner user_id amount) = 4"
| "steps_left (Approve_get_user user_id amount new_balance) = 3"
| "steps_left (Approve_credit_referrer rid profit new_balance) = 2"
| "steps_left (Approve_add_profit rid profit new_balance) = 1"
| "steps_left (Reject_start caller dep_id) = 2"
| "steps_left (Reject_set_status dep_id) = 1"
| "steps_left (Finished r) = 0"

text \<open>
  A handler that runs from its start to its end with no call of another handler in
  between: its reply and the store it leaves.
\<close>

function (sequential) run_alone :: "int set \<Rightarrow> review_task \<Rightarrow> db \<Rightarrow> review_reply \<times> db" where
  "run_alone admin_ids (Finished r) s = (r, s)"
| "run_alone admin_ids t s =
     run_alone admin_ids (fst (review_step admin_ids t s)) (snd (review_step admin_ids t s))"
  by pat_completeness auto

termination
proof (relation "measure (\<lambda>(admin_ids, t, s). steps_left t)")
  show "wf (measure (\<lambda>(admin_ids, t, s). steps_left t))"
    by simp
qed (simp_all split: option.split prod.split)

definition deposit_approve :: "int set \<Rightarrow> int \<Rightarrow> int \<Rightarrow> db \<Rightarrow> review_reply \<times> db" where
  "deposit_approve admin_ids caller dep_id s = run_alone admin_ids (Approve_start caller dep_id) s"

definition deposit_reject :: "int set \<Rightarrow> int \<Rightarrow> int \<Rightarrow> db \<Rightarrow> review_reply \<times> db" where
  "deposit_reject admin_ids caller dep_id s = run_alone admin_ids (Reject_start caller dep_id) s"

text \<open>
  Several handlers at once: the tasks in a list, and a schedule that names, step by
  step, the task that the event loop runs next.
\<close>

fun run_schedule ::
  "int set \<Rightarrow> nat list \<Rightarrow> review_task list \<Rightarrow> db \<Rightarrow> review_task list \<times> db" where
  "run_schedule admin_ids [] ts s = (ts, s)"
| "run_schedule admin_ids (i # sched) ts s =
     (if i < length ts
      then run_schedule admin_ids sched
             (ts[i := fst (review_step admin_ids (ts ! i) s)])
             (snd (review_step admin_ids (ts ! i) s))
      else run_schedule admin_ids sched ts s)"

text \<open>
  A store with one pending deposit of 7505999378950833 units, owned by user 7, whose
  referrer is user 9.
\<close>

definition large_deposit_db :: db where
  "large_deposit_db = empty_db
     \<lparr>users := [7 \<mapsto> \<lparr>username = None, first_name = None, referrer_id = Some 9\<rparr>],
      deposit_requests :=
        [1 \<mapsto> \<lparr>dep_user_id = 7, dep_amount = 7505999378950833, dep_status = ''pending_admin''\<rparr>]\<rparr>"

text \<open>The same with a deposit of 100000 units, as in the scenario of the specification.\<close>

definition scenario_deposit_db :: db where
  "scenario_deposit_db = empty_db
     \<lparr>users := [7 \<mapsto> \<lparr>username = None, first_name = None, referrer_id = Some 9\<rparr>],
      wallets := [7 \<mapsto> SqlInt 100000],
      deposit_requests :=
        [1 \<mapsto> \<lparr>dep_user_id = 7, dep_amount = 100000, dep_status = ''pending_admin''\<rparr>]\<rparr>"

section \<open>Calendar arithmetic\<close>

text \<open>
  Python's \<^verbatim>\<open>//\<close> and \<^verbatim>\<open>%\<close> on integers round towards minus infinity, as \<open>div\<close> and
  \<open>mod\<close> on \<open>int\<close> do.  \<open>py_index\<close> is Python's list indexing: a negative index counts
  from the end and an index out of range raises \<^verbatim>\<open>IndexError\<close> (\<open>None\<close>).
\<close>

definition py_index :: "'a list \<Rightarrow> int \<Rightarrow> 'a option" where
  "py_index xs i =
     (let n = int (length xs); j = (if i < 0 then i + n else i)
      in if 0 \<le> j \<and> j < n then Some (xs ! nat j) else None)"

definition g_d_m :: "int list" where
  "g_d_m = [0, 31, 59, 90, 120, 151, 181, 212, 243, 273, 304, 334]"

text \<open>
  \<^verbatim>\<open>gregorian_to_jalali\<close> in two parts.  \<open>jalali_of_day_number\<close> is the function from
  \<^verbatim>\<open>jy += 33 * (days // 12053)\<close> to its end: it takes the value \<^verbatim>\<open>jy\<close> has there (979 or
  0) and the count \<^verbatim>\<open>days\<close>.  \<open>gregorian_to_jalali\<close> is the part before, which computes
  the two; \<^verbatim>\<open>g_d_m[gm - 1]\<close> can raise \<^verbatim>\<open>IndexError\<close> (\<open>None\<close>).
\<close>

definition jalali_of_day_number :: "int \<Rightarrow> int \<Rightarrow> int \<times> int \<times> int" where
  "jalali_of_day_number jy0 days0 =
     (let jy1 = jy0 + 33 * (days0 div 12053);
          days1 = days0 mod 12053;
          jy2 = jy1 + 4 * (days1 div 1461);
          days2 = days1 mod 1461;
          (jy3, days3) = (if days2 > 365
                          then (jy2 + (days2 - 1) div 365, (days2 - 1) mod 365)
                          else (jy2, days2));
          (jm, jd) = (if days3 < 186
                      then (1 + days3 div 31, 1 + days3 mod 31)
                      else (7 + (days3 - 186) div 30, 1 + (days3 - 186) mod 30))
      in (jy3, jm, jd))"

definition gregorian_to_jalali :: "int \<Rightarrow> int \<Rightarrow> int \<Rightarrow> (int \<times> int \<times> int) option" where
  "gregorian_to_jalali gy0 gm gd =
     (let (jy, gy) = (if gy0 > 1600 then (979, gy0 - 1600) else (0, gy0 - 621));
          gy2 = (if gm > 2 then gy + 1 else gy)
      in (case py_index g_d_m (gm - 1) of
            None \<Rightarrow> None
          | Some month_days \<Rightarrow>
              Some (jalali_of_day_number jy
                (365 * gy + (gy2 + 3) div 4 - (gy2 + 99) div 100 + (gy2 + 399) div 400
                   - 80 + gd + month_days))))"

text \<open>
  The loop \<^verbatim>\<open>while gm <= 12 and gd > sal_a[gm]\<close> of \<^verbatim>\<open>jalali_to_gregorian\<close>.  It starts at
  \<^verbatim>\<open>gm = 1\<close> and \<^verbatim>\<open>sal_a\<close> has 13 entries, so every index it reads is in range.
\<close>

function month_loop :: "int list \<Rightarrow> int \<Rightarrow> int \<Rightarrow> int \<times> int" where
  "month_loop sal_a gm gd =
     (if gm \<le> 12 \<and> gd > sal_a ! nat gm
      then month_loop sal_a (gm + 1) (gd - sal_a ! nat gm)
      else (gm, gd))"
  by pat_completeness auto
termination
  by (relation "measure (\<lambda>(sal_a, gm, gd). nat (13 - gm))") auto

text \<open>
  \<^verbatim>\<open>jalali_to_gregorian\<close> in three parts, in the order of the source:
  \<open>jalali_day_number\<close> is the function up to the point where the month has been added to
  \<^verbatim>\<open>days\<close>; \<open>gregorian_year_day\<close> takes \<^verbatim>\<open>days\<close> from there and is the function from
  \<^verbatim>\<open>gy = 400 * (days // 146097)\<close> to the last \<^verbatim>\<open>if days > 365\<close>, giving \<^verbatim>\<open>gy\<close> and \<^verbatim>\<open>days\<close>;
  \<open>gregorian_of_day_number\<close> continues with \<^verbatim>\<open>gd = days + 1\<close>, the table \<^verbatim>\<open>sal_a\<close> and the
  loop.
\<close>

definition jalali_day_number :: "int \<Rightarrow> int \<Rightarrow> int \<Rightarrow> int" where
  "jalali_day_number jy0 jm jd =
     (let jy = jy0 + 1595;
          days0 = - 355668 + 365 * jy + (jy div 33) * 8 + ((jy mod 33) + 3) div 4 + jd
      in if jm < 7 then days0 + (jm - 1) * 31 else days0 + ((jm - 7) * 30) + 186)"

definition gregorian_year_day :: "int \<Rightarrow> int \<times> int" where
  "gregorian_year_day days1 =
     (let gy1 = 400 * (days1 div 146097);
          days2 = days1 mod 146097;
          (gy2, days3) = (if days2 > 36524
                          then (let g = gy1 + 100 * ((days2 - 1) div 36524);
                                    d = (days2 - 1) mod 36524
                                in (g, if d \<ge> 365 then d + 1 else d))
                          else (gy1, days2));
          gy3 = gy2 + 4 * (days3 div 1461);
          days4 = days3 mod 1461
      in if days4 > 365
         then (gy3 + (days4 - 1) div 365, (days4 - 1) mod 365)
         else (gy3, days4))"

definition gregorian_of_day_number :: "int \<Rightarrow> int \<times> int \<times> int" where
  "gregorian_of_day_number days1 =
     (let (gy4, days5) = gregorian_year_day days1;
          gd = days5 + 1;
          leap = ((gy4 mod 4 = 0 \<and> gy4 mod 100 \<noteq> 0) \<or> gy4 mod 400 = 0);
          sal_a = [0, 31, if leap then 29 else 28, 31, 30, 31, 30, 31, 31, 30, 31, 30, 31];
          (gm, gd') = month_loop sal_a 1 gd
      in (gy4, gm, gd'))"

definition jalali_to_gregorian :: "int \<Rightarrow> int \<Rightarrow> int \<Rightarrow> int \<times> int \<times> int" where
  "jalali_to_gregorian jy jm jd = gregorian_of_day_number (jalali_day_number jy jm jd)"

text \<open>\<^verbatim>\<open>jalali_month_days\<close>\<close>

definition jalali_month_days :: "int \<Rightarrow> int \<Rightarrow> int" where
  "jalali_month_days jy jm =
     (if jm \<le> 6 then 31
      else if jm \<le> 11 then 30
      else (let a = jy - 474;
                b = a mod 2820 + 474;
                leap = (((b + 38) * 682) mod 2816 < 682)
            in if leap then 30 else 29))"

subsection \<open>Python's \<^verbatim>\<open>datetime\<close>\<close>

text \<open>
  The parts of the standard library's \<^verbatim>\<open>datetime\<close> the handlers use, after the reference
  implementation \<^verbatim>\<open>Lib/_pydatetime.py\<close>: the check of the date fields and \<^verbatim>\<open>replace\<close> here,
  comparison and the sum with a \<^verbatim>\<open>timedelta\<close> further down.
\<close>

definition is_leap :: "int \<Rightarrow> bool" where
  "is_leap y = (y mod 4 = 0 \<and> (y mod 100 \<noteq> 0 \<or> y mod 400 = 0))"

definition days_in_month :: "int \<Rightarrow> int \<Rightarrow> int" where
  "days_in_month y m =
     (if m = 2 \<and> is_leap y then 29
      else [0, 31, 28, 31, 30, 31, 30, 31, 31, 30, 31, 30, 31] ! nat m)"

text \<open>\<^verbatim>\<open>_check_date_fields\<close>: year 1 to 9999, month 1 to 12, day 1 to the month's length.\<close>

definition date_fields_ok :: "int \<Rightarrow> int \<Rightarrow> int \<Rightarrow> bool" where
  "date_fields_ok y m d =
     (1 \<le> y \<and> y \<le> 9999 \<and> 1 \<le> m \<and> m \<le> 12 \<and> 1 \<le> d \<and> d \<le> days_in_month y m)"

text \<open>\<^verbatim>\<open>dt.replace(year=y, month=m, day=d)\<close>: \<^verbatim>\<open>ValueError\<close> (\<open>None\<close>) on a date that does not exist.\<close>

definition replace_date :: "datetime \<Rightarrow> int \<Rightarrow> int \<Rightarrow> int \<Rightarrow> datetime option" where
  "replace_date dt y m d =
     (if date_fields_ok y m d then Some (dt\<lparr>year := y, month := m, day := d\<rparr>) else None)"

text \<open>\<^verbatim>\<open>add_months_shamsi\<close>\<close>

definition add_months_shamsi :: "datetime \<Rightarrow> int \<Rightarrow> datetime option" where
  "add_months_shamsi dt months =
     (case gregorian_to_jalali (year dt) (month dt) (day dt) of
        None \<Rightarrow> None
      | Some (jy, jm, jd) \<Rightarrow>
          (let total = (jm - 1) + months;
               new_jy = jy + total div 12;
               new_jm = total mod 12 + 1;
               max_day = jalali_month_days new_jy new_jm;
               new_jd = min jd max_day;
               (gy, gm, gd) = jalali_to_gregorian new_jy new_jm new_jd
           in replace_date dt gy gm gd))"

subsection \<open>Day numbers\<close>

text \<open>
  To state what the conversions do: \<open>year_start y\<close> counts the days from 1 January of year
  0 to 1 January of year \<open>y\<close> in the Gregorian calendar, and \<open>gregorian_day_number\<close> the
  days from 1 January of year 0 to a date.
\<close>

definition year_start :: "int \<Rightarrow> int" where
  "year_start y = 365 * y + (y + 3) div 4 - (y + 99) div 100 + (y + 399) div 400"

definition gregorian_day_number :: "int \<Rightarrow> int \<Rightarrow> int \<Rightarrow> int" where
  "gregorian_day_number gy gm gd =
     year_start gy + g_d_m ! nat (gm - 1) + (if gm > 2 \<and> is_leap gy then 1 else 0) + gd - 1"

section \<open>Purchase of a plan\<close>

subsection \<open>Comparison and sums of \<^verbatim>\<open>datetime\<close> values\<close>

text \<open>
  \<^verbatim>\<open>a < b\<close> on two \<^verbatim>\<open>datetime\<close> values without time zone compares the tuples of the fields,
  from the year down, as Python compares tuples.
\<close>

fun tuple_less :: "int list \<Rightarrow> int list \<Rightarrow> bool" where
  "tuple_less [] [] = False"
| "tuple_less [] (y # ys) = True"
| "tuple_less (x # xs) [] = False"
| "tuple_less (x # xs) (y # ys) = (x < y \<or> (x = y \<and> tuple_less xs ys))"

definition datetime_less :: "datetime \<Rightarrow> datetime \<Rightarrow> bool" where
  "datetime_less a b =
     tuple_less [year a, month a, day a, hour a, minute a, second a]
                [year b, month b, day b, hour b, minute b, second b]"

text \<open>
  \<^verbatim>\<open>_days_before_year\<close>, \<^verbatim>\<open>_days_before_month\<close>, \<^verbatim>\<open>_ymd2ord\<close> (\<^verbatim>\<open>toordinal\<close>) and \<^verbatim>\<open>_ord2ymd\<close>
  (\<^verbatim>\<open>fromordinal\<close>): 1 January of year 1 is day 1.
\<close>

definition days_before_year :: "int \<Rightarrow> int" where
  "days_before_year y = (let y1 = y - 1 in y1 * 365 + y1 div 4 - y1 div 100 + y1 div 400)"

definition days_before_month :: "int \<Rightarrow> int \<Rightarrow> int" where
  "days_before_month y m =
     [- 1, 0, 31, 59, 90, 120, 151, 181, 212, 243, 273, 304, 334] ! nat m
       + (if m > 2 \<and> is_leap y then 1 else 0)"

definition ymd2ord :: "int \<Rightarrow> int \<Rightarrow> int \<Rightarrow> int" where
  "ymd2ord y m d = days_before_year y + days_before_month y m + d"

definition ord2ymd :: "int \<Rightarrow> int \<times> int \<times> int" where
  "ord2ymd n0 =
     (let n = n0 - 1;
          n400 = n div 146097;
          n = n mod 146097;
          n100 = n div 36524;
          n = n mod 36524;
          n4 = n div 1461;
          n = n mod 1461;
          n1 = n div 365;
          n = n mod 365;
          y = n400 * 400 + 1 + n100 * 100 + n4 * 4 + n1
      in if n1 = 4 \<or> n100 = 4 then (y - 1, 12, 31)
         else (let leapyear = (n1 = 3 \<and> (n4 \<noteq> 24 \<or> n100 = 3));
                   m = (n + 50) div 32;
                   preceding =
                     [- 1, 0, 31, 59, 90, 120, 151, 181, 212, 243, 273, 304, 334] ! nat m
                       + (if m > 2 \<and> leapyear then 1 else 0)
               in if preceding > n
                  then (let m' = m - 1;
                            preceding' = preceding -
                              ([- 1, 31, 28, 31, 30, 31, 30, 31, 31, 30, 31, 30, 31] ! nat m'
                                 + (if m' = 2 \<and> leapyear then 1 else 0))
                        in (y, m', n - preceding' + 1))
                  else (y, m, n - preceding + 1)))"

text \<open>
  \<^verbatim>\<open>dt + timedelta(seconds=k)\<close>, and \<^verbatim>\<open>dt - timedelta(seconds=k)\<close> as the sum with \<open>- k\<close>: the
  seconds of the day and \<open>k\<close> are added, the whole days go to the ordinal, and a result
  outside the years 1 to 9999 raises \<^verbatim>\<open>OverflowError\<close> (\<open>None\<close>).
\<close>

definition datetime_add :: "datetime \<Rightarrow> int \<Rightarrow> datetime option" where
  "datetime_add dt k =
     (let total = hour dt * 3600 + minute dt * 60 + second dt + k;
          days = ymd2ord (year dt) (month dt) (day dt) + total div 86400;
          secs = total mod 86400
      in if 0 < days \<and> days \<le> 3652059
         then (let (y, m, d) = ord2ymd days
               in Some \<lparr>year = y, month = m, day = d, hour = secs div 3600,
                         minute = secs mod 3600 div 60, second = secs mod 3600 mod 60\<rparr>)
         else None)"

text \<open>\<^verbatim>\<open>IRAN_OFFSET = timedelta(hours=3, minutes=30)\<close>, in seconds; \<^verbatim>\<open>to_iran\<close>, \<^verbatim>\<open>from_iran\<close>.\<close>

definition IRAN_OFFSET :: int where
  "IRAN_OFFSET = 3 * 3600 + 30 * 60"

definition to_iran :: "datetime \<Rightarrow> datetime option" where
  "to_iran dt_utc = datetime_add dt_utc IRAN_OFFSET"

definition from_iran :: "datetime \<Rightarrow> datetime option" where
  "from_iran dt_iran = datetime_add dt_iran (- IRAN_OFFSET)"

subsection \<open>Orders and subscriptions\<close>

text \<open>
  \<^verbatim>\<open>create_order\<close>: a new row with status \<^verbatim>\<open>paid_waiting_link\<close> under the next id, which is
  returned.
\<close>

definition create_order :: "int \<Rightarrow> int \<Rightarrow> int \<Rightarrow> db \<Rightarrow> int \<times> db" where
  "create_order user_id months amount s =
     (orders_seq s + 1,
      s\<lparr>orders := orders s @
           [\<lparr>order_id = orders_seq s + 1, order_user_id = user_id, plan_months = months,
             order_amount = amount, order_status = ''paid_waiting_link'',
             delivered_link = None\<rparr>],
        orders_seq := orders_seq s + 1\<rparr>)"

text \<open>
  \<^verbatim>\<open>get_subscription\<close>, and \<^verbatim>\<open>set_subscription\<close>: insert the row, or on a conflict update it;
  both set the two flags to 0.
\<close>

definition get_subscription :: "int \<Rightarrow> db \<Rightarrow> sub_row option" where
  "get_subscription user_id s = subscriptions s user_id"

definition set_subscription :: "int \<Rightarrow> datetime \<Rightarrow> db \<Rightarrow> db" where
  "set_subscription user_id e s =
     s\<lparr>subscriptions := (subscriptions s)
         (user_id \<mapsto> \<lparr>expires_at = e, reminded_before_expiry = 0, notified_expired = 0\<rparr>)\<rparr>"

subsection \<open>\<^verbatim>\<open>confirm_purchase\<close>\<close>

text \<open>\<^verbatim>\<open>PLANS = {2: 150_000, 4: 265_000, 6: 350_000, 12: 600_000}\<close>\<close>

definition PLANS :: "int \<rightharpoonup> int" where
  "PLANS = [2 \<mapsto> 150000, 4 \<mapsto> 265000, 6 \<mapsto> 350000, 12 \<mapsto> 600000]"

text \<open>
  The base of the renewal: \<^verbatim>\<open>base_utc = now_utc\<close>, and with a subscription row
  \<^verbatim>\<open>base_utc = cur_exp_utc if cur_exp_utc > now_utc else now_utc\<close>.
\<close>

definition renewal_base :: "datetime \<Rightarrow> sub_row option \<Rightarrow> datetime" where
  "renewal_base now_utc sub =
     (case sub of
        None \<Rightarrow> now_utc
      | Some r \<Rightarrow> if datetime_less now_utc (expires_at r) then expires_at r else now_utc)"

text \<open>
  \<^verbatim>\<open>base_iran = to_iran(base_utc)\<close>, \<^verbatim>\<open>new_exp_iran = add_months_shamsi(base_iran, months)\<close>,
  \<^verbatim>\<open>new_exp_utc = from_iran(new_exp_iran)\<close>; \<open>None\<close> when one of the three raises.
\<close>

definition new_expiry :: "datetime \<Rightarrow> int \<Rightarrow> datetime option" where
  "new_expiry base_utc months =
     (case to_iran base_utc of
        None \<Rightarrow> None
      | Some base_iran \<Rightarrow>
          (case add_months_shamsi base_iran months of
             None \<Rightarrow> None
           | Some new_exp_iran \<Rightarrow> from_iran new_exp_iran))"

text \<open>
  What the handler does for the user: the balance is too low (with the balance), the
  deduction failed, the purchase is made and a link delivered (with the link and the new
  balance), the purchase is made and the order waits for a link (with the new balance),
  or an exception ended the handler.
\<close>

datatype purchase_reply =
    NotEnoughBalance int
  | DeductionFailed
  | Delivered string int
  | Queued int
  | PurchaseRaised

text \<open>
  \<^verbatim>\<open>confirm_purchase\<close> is a coroutine like the review handlers: every call of \<^verbatim>\<open>db.py\<close> is
  awaited and commits on its own, and another handler may run between two of them.  A
  running purchase is a task, the place it has reached with its local variables; one
  step is one call of \<^verbatim>\<open>db.py\<close> with the code after it up to the next call.  The
  arguments of the tasks are \<^verbatim>\<open>user_id\<close> and \<^verbatim>\<open>months\<close> (from the callback), then, as they
  come, \<^verbatim>\<open>price\<close>, \<^verbatim>\<open>new_balance\<close>, \<^verbatim>\<open>order_id\<close>, \<^verbatim>\<open>new_exp_utc\<close> and \<^verbatim>\<open>link\<close>.
\<close>

datatype purchase_task =
    Purchase_start int int
  | Purchase_deduct int int int
  | Purchase_create_order int int int int
  | Purchase_get_subscription int int int int
  | Purchase_set_subscription int int datetime int
  | Purchase_pop_link int int int
  | Purchase_set_delivered int string int
  | Purchase_finished purchase_reply

text \<open>
  \<open>now_utc\<close> is the reading of the clock (\<^verbatim>\<open>datetime.utcnow().replace(microsecond=0)\<close>),
  taken once the subscription row has been read.  \<^verbatim>\<open>PLANS[months]\<close> raises \<^verbatim>\<open>KeyError\<close> for
  a number that is no plan.  An exception after the deduction leaves the deduction and
  the order in the store.  \<^verbatim>\<open>if link:\<close> takes the empty string as no link.  Messages
  change nothing in the store.
\<close>

fun purchase_step :: "datetime \<Rightarrow> purchase_task \<Rightarrow> db \<Rightarrow> purchase_task \<times> db" where
  "purchase_step now_utc (Purchase_start user_id months) s =
     (case PLANS months of
        None \<Rightarrow> (Purchase_finished PurchaseRaised, s)
      | Some price \<Rightarrow>
          (let bal = get_wallet_balance user_id s
           in if bal < price then (Purchase_finished (NotEnoughBalance bal), s)
              else (Purchase_deduct user_id months price, s)))"
| "purchase_step now_utc (Purchase_deduct user_id months price) s =
     (case try_deduct_wallet user_id price s of
        None \<Rightarrow> (Purchase_finished PurchaseRaised, s)
      | Some ((ok, new_balance), s') \<Rightarrow>
          if \<not> ok then (Purchase_finished DeductionFailed, s')
          else (Purchase_create_order user_id months price new_balance, s'))"
| "purchase_step now_utc (Purchase_create_order user_id months price new_balance) s =
     (let (oid, s') = create_order user_id months price s
      in (Purchase_get_subscription user_id months oid new_balance, s'))"
| "purchase_step now_utc (Purchase_get_subscription user_id months oid new_balance) s =
     (let sub = get_subscription user_id s;
          base_utc = renewal_base now_utc sub
      in (case new_expiry base_utc months of
            None \<Rightarrow> (Purchase_finished PurchaseRaised, s)
          | Some new_exp_utc \<Rightarrow>
              (Purchase_set_subscription user_id oid new_exp_utc new_balance, s)))"
| "purchase_step now_utc (Purchase_set_subscription user_id oid new_exp_utc new_balance) s =
     (Purchase_pop_link user_id oid new_balance, set_subscription user_id new_exp_utc s)"
| "purchase_step now_utc (Purchase_pop_link user_id oid new_balance) s =
     (let (l, s') = pop_available_link_for_order oid user_id s
      in (case l of
            None \<Rightarrow> (Purchase_finished (Queued new_balance), s')
          | Some v \<Rightarrow>
              if v = [] then (Purchase_finished (Queued new_balance), s')
              else (Purchase_set_delivered oid v new_balance, s')))"
| "purchase_step now_utc (Purchase_set_delivered oid v new_balance) s =
     (Purchase_finished (Delivered v new_balance), set_order_delivered oid v s)"
| "purchase_step now_utc (Purchase_finished r) s = (Purchase_finished r, s)"

fun purchase_steps_left :: "purchase_task \<Rightarrow> nat" where
  "purchase_steps_left (Purchase_start user_id months) = 7"
| "purchase_steps_left (Purchase_deduct user_id months price) = 6"
| "purchase_steps_left (Purchase_create_order user_id months price new_balance) = 5"
| "purchase_steps_left (Purchase_get_subscription user_id months oid new_balance) = 4"
| "purchase_steps_left (Purchase_set_subscription user_id oid new_exp_utc new_balance) = 3"
| "purchase_steps_left (Purchase_pop_link user_id oid new_balance) = 2"
| "purchase_steps_left (Purchase_set_delivered oid v new_balance) = 1"
| "purchase_steps_left (Purchase_finished r) = 0"

text \<open>
  A purchase that runs from its start to its end with no call of another handler in
  between, the clock reading \<open>now_utc\<close>: its reply and the store it leaves.
\<close>

function (sequential) run_purchase ::
  "datetime \<Rightarrow> purchase_task \<Rightarrow> db \<Rightarrow> purchase_reply \<times> db" where
  "run_purchase now_utc (Purchase_finished r) s = (r, s)"
| "run_purchase now_utc t s =
     run_purchase now_utc (fst (purchase_step now_utc t s)) (snd (purchase_step now_utc t s))"
  by pat_completeness auto

termination
proof (relation "measure (\<lambda>(now_utc, t, s). purchase_steps_left t)")
  show "wf (measure (\<lambda>(now_utc, t, s). purchase_steps_left t))"
    by simp
qed (simp_all add: Let_def split_beta split: option.split prod.split list.split)

definition confirm_purchase :: "datetime \<Rightarrow> int \<Rightarrow> int \<Rightarrow> db \<Rightarrow> purchase_reply \<times> db" where
  "confirm_purchase now_utc user_id months s =
     run_purchase now_utc (Purchase_start user_id months) s"

text \<open>
  A store in which user 7 has a balance of 200000 and a subscription that ends on 20
  September 2024 at 22:00 UTC, which in Iran is 21 September at 01:30, the 31st and last
  day of Shahrivar 1403.
\<close>

definition renewal_db :: db where
  "renewal_db = empty_db
     \<lparr>wallets := [7 \<mapsto> SqlInt 200000],
      subscriptions :=
        [7 \<mapsto> \<lparr>expires_at = \<lparr>year = 2024, month = 9, day = 20, hour = 22, minute = 0,
                                second = 0\<rparr>,
                 reminded_before_expiry = 1, notified_expired = 0\<rparr>]\<rparr>"

section \<open>Wallet: properties\<close>

lemma integer_balance_cases:
  assumes "integer_balance u s"
  obtains "wallets s u = None" and "get_wallet_balance u s = 0"
  | b where "wallets s u = Some (SqlInt b)" and "in_int64 b" and "get_wallet_balance u s = b"
  using assms
  by (auto simp: integer_balance_def get_wallet_balance_def split: option.splits sql_num.splits)

lemma add_wallet_balance_integer:
  assumes "integer_balance u s" and "in_int64 a" and "in_int64 (get_wallet_balance u s + a)"
  shows "add_wallet_balance u a s =
           Some (get_wallet_balance u s + a,
                 s\<lparr>wallets := (wallets s)(u \<mapsto> SqlInt (get_wallet_balance u s + a))\<rparr>)"
  using assms(1)
proof (cases rule: integer_balance_cases)
  case 1
  with assms(2) show ?thesis
    by (simp add: add_wallet_balance_def ensure_wallet_def get_wallet_balance_def Let_def)
next
  case (2 b)
  with assms(2,3) show ?thesis
    by (simp add: add_wallet_balance_def ensure_wallet_def get_wallet_balance_def Let_def)
qed

lemma try_deduct_wallet_ok:
  assumes "integer_balance u s" and "0 < a" and "a \<le> get_wallet_balance u s"
  shows "try_deduct_wallet u a s =
           Some ((True, get_wallet_balance u s - a),
                 s\<lparr>wallets := (wallets s)(u \<mapsto> SqlInt (get_wallet_balance u s - a))\<rparr>)"
  using assms(1)
proof (cases rule: integer_balance_cases)
  case 1
  with assms(2,3) show ?thesis
    by simp
next
  case (2 b)
  from 2(2,3) assms(2,3) have "in_int64 a" and "in_int64 (b - a)" and "a \<le> b"
    by (simp_all add: in_int64_def)
  with 2(1) show ?thesis
    by (simp add: try_deduct_wallet_def ensure_wallet_def get_wallet_balance_def Let_def)
qed

lemma try_deduct_wallet_fail:
  "get_wallet_balance u s < a \<Longrightarrow>
   try_deduct_wallet u a s = Some ((False, get_wallet_balance u s), s)"
  by (simp add: try_deduct_wallet_def get_wallet_balance_def ensure_wallet_def Let_def
      split: option.splits)

lemma integer_balance_update:
  "in_int64 b \<Longrightarrow> integer_balance u (s\<lparr>wallets := (wallets s)(u \<mapsto> SqlInt b)\<rparr>)"
  by (simp add: integer_balance_def)

lemma get_wallet_balance_update:
  "get_wallet_balance u (s\<lparr>wallets := (wallets s)(u \<mapsto> SqlInt b)\<rparr>) = b"
  by (simp add: get_wallet_balance_def)

text \<open>
  C2.  For every user and every amount above 0, when the current balance \<open>b\<close> is stored
  as a 64-bit integer, \<^verbatim>\<open>try_deduct_wallet\<close> returns, and succeeds exactly when \<open>b\<close> is at
  least the amount: then it returns \<open>(True, b - amount)\<close> and the stored balance
  becomes \<open>b - amount\<close>; otherwise it returns \<open>(False, b)\<close> and the store, hence the stored
  balance, is unchanged.
\<close>

theorem try_deduct_wallet_spec:
  assumes "0 < amount" and "b = get_wallet_balance u s" and "integer_balance u s"
  shows "(amount \<le> b \<longrightarrow>
            (\<exists>s'. try_deduct_wallet u amount s = Some ((True, b - amount), s') \<and>
                  get_wallet_balance u s' = b - amount)) \<and>
         (b < amount \<longrightarrow>
            try_deduct_wallet u amount s = Some ((False, b), s) \<and>
            get_wallet_balance u s = b)"
proof (cases "amount \<le> b")
  case True
  with assms show ?thesis
    using try_deduct_wallet_ok [of u s amount] by (simp add: get_wallet_balance_update)
next
  case False
  with assms(2) show ?thesis
    using try_deduct_wallet_fail [of u s amount] by simp
qed

theorem try_deduct_wallet_spec_witness:
  "(0::int) < 30 \<and>
   integer_balance 7 (empty_db\<lparr>wallets := [7 \<mapsto> SqlInt 100]\<rparr>) \<and>
   (\<exists>s'. try_deduct_wallet 7 30 (empty_db\<lparr>wallets := [7 \<mapsto> SqlInt 100]\<rparr>) = Some ((True, 70), s') \<and>
         get_wallet_balance 7 s' = 70)"
  using try_deduct_wallet_spec [of 30 100 7 "empty_db\<lparr>wallets := [7 \<mapsto> SqlInt 100]\<rparr>"]
  by (simp add: get_wallet_balance_def integer_balance_def in_int64_def empty_db_def)

text \<open>
  A balance past the 64-bit range is a \<^verbatim>\<open>REAL\<close>, and a debit that succeeds on it is rounded:
  after two credits of \<open>5 * 10 ^ 18\<close> the balance is \<open>10 ^ 19\<close>, and a debit of 150000 returns
  and stores 9999999999999850496, which is not \<open>10 ^ 19 - 150000\<close>.
\<close>

theorem try_deduct_wallet_real_counterexample:
  "add_wallet_balance 7 5000000000000000000 empty_db =
     Some (5000000000000000000, empty_db\<lparr>wallets := [7 \<mapsto> SqlInt 5000000000000000000]\<rparr>) \<and>
   add_wallet_balance 7 5000000000000000000
       (empty_db\<lparr>wallets := [7 \<mapsto> SqlInt 5000000000000000000]\<rparr>) =
     Some (10000000000000000000, empty_db\<lparr>wallets := [7 \<mapsto> SqlReal 10000000000000000000]\<rparr>) \<and>
   try_deduct_wallet 7 150000 (empty_db\<lparr>wallets := [7 \<mapsto> SqlReal 10000000000000000000]\<rparr>) =
     Some ((True, 9999999999999850496),
           empty_db\<lparr>wallets := [7 \<mapsto> SqlReal 9999999999999850496]\<rparr>) \<and>
   (10000000000000000000::int) - 150000 \<noteq> 9999999999999850496"
  by (simp add: add_wallet_balance_def try_deduct_wallet_def ensure_wallet_def
      get_wallet_balance_def in_int64_def to_double_def round53_def bit_length.simps
      Let_def empty_db_def)

lemma credit_total_nonneg:
  "\<forall>c \<in> set cs. 0 < op_amount c \<Longrightarrow> 0 \<le> credit_total cs"
proof (induction cs)
  case Nil
  then show ?case by simp
next
  case (Cons c cs)
  then show ?case by (cases c) simp_all
qed

lemma wallet_call_credit:
  assumes "integer_balance u s" and "0 \<le> get_wallet_balance u s" and "0 < a"
    and "get_wallet_balance u s + a < 2 ^ 63"
  shows "wallet_call u (Credit a) s =
           (Some (True, get_wallet_balance u s + a),
            s\<lparr>wallets := (wallets s)(u \<mapsto> SqlInt (get_wallet_balance u s + a))\<rparr>)"
proof -
  from assms(2-4) have "in_int64 a" and "in_int64 (get_wallet_balance u s + a)"
    by (simp_all add: in_int64_def)
  then show ?thesis
    using add_wallet_balance_integer [OF assms(1)] by simp
qed

lemma wallet_call_debit_ok:
  assumes "integer_balance u s" and "0 < a" and "a \<le> get_wallet_balance u s"
  shows "wallet_call u (TryDebit a) s =
           (Some (True, get_wallet_balance u s - a),
            s\<lparr>wallets := (wallets s)(u \<mapsto> SqlInt (get_wallet_balance u s - a))\<rparr>)"
  using try_deduct_wallet_ok [OF assms] by simp

lemma wallet_call_debit_fail:
  assumes "get_wallet_balance u s < a"
  shows "wallet_call u (TryDebit a) s = (Some (False, get_wallet_balance u s), s)"
  using try_deduct_wallet_fail [OF assms] by simp

declare wallet_call.simps [simp del]

lemma integer_balance_nonneg_update:
  assumes "integer_balance u s" and "0 \<le> b" and "b < 2 ^ 63"
  shows "integer_balance u (s\<lparr>wallets := (wallets s)(u \<mapsto> SqlInt b)\<rparr>)"
  using assms(2,3) by (simp add: integer_balance_def in_int64_def)

lemma wallet_calls_invariant:
  assumes "\<forall>c \<in> set cs. 0 < op_amount c" and "integer_balance u s"
    and "0 \<le> get_wallet_balance u s" and "get_wallet_balance u s + credit_total cs < 2 ^ 63"
  shows "(\<forall>(c, r, bal) \<in> set (fst (wallet_calls u cs s)). r \<noteq> None \<and> 0 \<le> bal) \<and>
         get_wallet_balance u (snd (wallet_calls u cs s)) =
           get_wallet_balance u s + credit_total cs - debited (fst (wallet_calls u cs s))"
  using assms
proof (induction cs arbitrary: s)
  case Nil
  then show ?case by simp
next
  case (Cons c cs)
  let ?b = "get_wallet_balance u s"
  have pos: "0 < op_amount c" and rest: "\<forall>c \<in> set cs. 0 < op_amount c"
    using Cons.prems(1) by simp_all
  have tot: "0 \<le> credit_total cs"
    using rest by (rule credit_total_nonneg)
  show ?case
  proof (cases c)
    case (Credit a)
    let ?s' = "s\<lparr>wallets := (wallets s)(u \<mapsto> SqlInt (?b + a))\<rparr>"
    from Credit pos Cons.prems(3,4) tot have a: "0 < a" and room: "?b + a < 2 ^ 63"
      and room': "?b + a + credit_total cs < 2 ^ 63"
      by simp_all
    have call: "wallet_call u (Credit a) s = (Some (True, ?b + a), ?s')"
      using Cons.prems(2,3) a room by (rule wallet_call_credit)
    have bal: "get_wallet_balance u ?s' = ?b + a"
      by (rule get_wallet_balance_update)
    have int': "integer_balance u ?s'"
      using Cons.prems(2) _ room by (rule integer_balance_nonneg_update) (use a Cons.prems(3) in simp)
    have "0 \<le> get_wallet_balance u ?s'" and "get_wallet_balance u ?s' + credit_total cs < 2 ^ 63"
      using bal a Cons.prems(3) room' by simp_all
    note ih = Cons.IH [OF rest int' this]
    from ih bal a Cons.prems(3) show ?thesis
      by (auto simp: call split_beta Credit)
  next
    case (TryDebit a)
    from TryDebit pos have a: "0 < a"
      by simp
    from TryDebit Cons.prems(4) have room: "?b + credit_total cs < 2 ^ 63"
      by simp
    show ?thesis
    proof (cases "a \<le> ?b")
      case True
      let ?s' = "s\<lparr>wallets := (wallets s)(u \<mapsto> SqlInt (?b - a))\<rparr>"
      have call: "wallet_call u (TryDebit a) s = (Some (True, ?b - a), ?s')"
        using Cons.prems(2) a True by (rule wallet_call_debit_ok)
      have bal: "get_wallet_balance u ?s' = ?b - a"
        by (rule get_wallet_balance_update)
      have int': "integer_balance u ?s'"
        using Cons.prems(2) _ _ by (rule integer_balance_nonneg_update) (use a True room tot in simp_all)
      have "0 \<le> get_wallet_balance u ?s'" and "get_wallet_balance u ?s' + credit_total cs < 2 ^ 63"
        using bal a True room by simp_all
      note ih = Cons.IH [OF rest int' this]
      from ih bal a True show ?thesis
        by (auto simp: call split_beta TryDebit)
    next
      case False
      then have call: "wallet_call u (TryDebit a) s = (Some (False, ?b), s)"
        using wallet_call_debit_fail [of u s a] by simp
      note ih = Cons.IH [OF rest Cons.prems(2,3) room]
      from ih Cons.prems(3) show ?thesis
        by (auto simp: call split_beta TryDebit)
    qed
  qed
qed

text \<open>
  C3.  For any sequence of credits and debit attempts, all with an amount above 0, on one
  wallet that starts with balance 0 (absent or zero), when the credited amounts add up to
  less than \<open>2 ^ 63\<close>: every call returns, the stored balance is at least 0 after every
  call, and the final balance is the sum of the credited amounts minus the sum of the
  amounts of the debits that succeeded.
\<close>

theorem wallet_never_negative:
  assumes "\<forall>c \<in> set cs. 0 < op_amount c"
    and "wallets s u = None \<or> wallets s u = Some (SqlInt 0)"
    and "credit_total cs < 2 ^ 63"
  shows "(\<forall>(c, r, bal) \<in> set (fst (wallet_calls u cs s)). r \<noteq> None \<and> 0 \<le> bal) \<and>
         get_wallet_balance u (snd (wallet_calls u cs s)) =
           credit_total cs - debited (fst (wallet_calls u cs s))"
proof -
  from assms(2) have "integer_balance u s" and zero: "get_wallet_balance u s = 0"
    by (auto simp: integer_balance_def get_wallet_balance_def in_int64_def)
  with assms(1,3) show ?thesis
    using wallet_calls_invariant [of cs u s] by simp
qed

theorem wallet_never_negative_witness:
  "0 < op_amount (Credit 50) \<and> 0 < op_amount (TryDebit 80) \<and> 0 < op_amount (TryDebit 20) \<and>
   wallets empty_db 7 = None \<and>
   credit_total [Credit 50, TryDebit 80, TryDebit 20] < 2 ^ 63 \<and>
   fst (wallet_calls 7 [Credit 50, TryDebit 80, TryDebit 20] empty_db) =
     [(Credit 50, Some (True, 50), 50), (TryDebit 80, Some (False, 50), 50),
      (TryDebit 20, Some (True, 30), 30)] \<and>
   get_wallet_balance 7 (snd (wallet_calls 7 [Credit 50, TryDebit 80, TryDebit 20] empty_db)) =
     50 - 20"
  using wallet_never_negative [of "[Credit 50, TryDebit 80, TryDebit 20]" empty_db 7]
  by (simp add: get_wallet_balance_def empty_db_def add_wallet_balance_def
      try_deduct_wallet_def ensure_wallet_def in_int64_def Let_def wallet_call.simps)

text \<open>
  Past the 64-bit range the sum is rounded: after a credit of \<open>2 ^ 63 - 1\<close> and a credit of
  2 the balance read back is \<open>2 ^ 63\<close>, not \<open>2 ^ 63 + 1\<close>.  A credit of \<open>2 ^ 63\<close> or more does
  not return at all.
\<close>

theorem wallet_sum_overflow_counterexample:
  "fst (wallet_calls 7 [Credit 9223372036854775807, Credit 2] empty_db) =
     [(Credit 9223372036854775807, Some (True, 9223372036854775807), 9223372036854775807),
      (Credit 2, Some (True, 9223372036854775808), 9223372036854775808)] \<and>
   get_wallet_balance 7 (snd (wallet_calls 7 [Credit 9223372036854775807, Credit 2] empty_db)) =
     9223372036854775808 \<and>
   credit_total [Credit 9223372036854775807, Credit 2]
     - debited (fst (wallet_calls 7 [Credit 9223372036854775807, Credit 2] empty_db)) =
     9223372036854775809 \<and>
   fst (wallet_calls 7 [Credit 9223372036854775808] empty_db) =
     [(Credit 9223372036854775808, None, 0)]"
  by (simp add: get_wallet_balance_def empty_db_def add_wallet_balance_def
      ensure_wallet_def in_int64_def to_double_def round53_def bit_length.simps
      Let_def wallet_call.simps)

section \<open>Links pool: allocation\<close>

lemma sort_key_head:
  assumes "sort_key f xs = y # ys"
  shows "y \<in> set xs \<and> (\<forall>x \<in> set xs. f y \<le> f x)"
proof -
  have "set (y # ys) = set xs"
    using assms set_sort [of f xs] by simp
  moreover have "sorted (map f (y # ys))"
    using assms sorted_sort_key [of f xs] by simp
  ultimately show ?thesis by auto
qed

lemma available_links_head:
  assumes "available_links s = row # rest"
  shows "row \<in> set (links s) \<and> is_used row = 0 \<and>
         (\<forall>r \<in> set (links s). is_used r = 0 \<longrightarrow> link_id row \<le> link_id r)"
  using sort_key_head [OF assms [unfolded available_links_def]] by auto

lemma available_links_empty:
  "available_links s = [] \<longleftrightarrow> (\<forall>r \<in> set (links s). is_used r \<noteq> 0)"
proof -
  have "available_links s = [] \<longleftrightarrow> set (available_links s) = {}" by simp
  also have "\<dots> \<longleftrightarrow> (\<forall>r \<in> set (links s). is_used r \<noteq> 0)"
    by (auto simp: available_links_def)
  finally show ?thesis .
qed

lemma mark_link_used_row:
  assumes "distinct (map link_id ls)" and "row \<in> set ls"
  shows "map (mark_link_used (link_id row) oid uid) ls =
         map (\<lambda>r. if r = row
                   then r\<lparr>is_used := 1, used_by_order_id := Some oid, used_by_user_id := Some uid\<rparr>
                   else r) ls"
proof (rule map_cong [OF refl])
  fix r assume "r \<in> set ls"
  then have "link_id r = link_id row \<longleftrightarrow> r = row"
    using assms by (meson distinct_map inj_onD)
  then show "mark_link_used (link_id row) oid uid r =
     (if r = row then r\<lparr>is_used := 1, used_by_order_id := Some oid, used_by_user_id := Some uid\<rparr>
      else r)"
    by (simp add: mark_link_used_def)
qed

lemma pop_some:
  assumes "distinct (map link_id (links s))" and "\<exists>r \<in> set (links s). is_used r = 0"
  shows "\<exists>row \<in> set (links s). is_used row = 0 \<and>
           (\<forall>r \<in> set (links s). is_used r = 0 \<longrightarrow> link_id row \<le> link_id r) \<and>
           pop_available_link_for_order oid uid s =
             (Some (link row),
              s\<lparr>links := map (\<lambda>r. if r = row
                    then r\<lparr>is_used := 1, used_by_order_id := Some oid, used_by_user_id := Some uid\<rparr>
                    else r) (links s),
                orders := map (\<lambda>r. if order_id r = oid
                    then r\<lparr>order_status := ''delivered'', delivered_link := Some (link row)\<rparr>
                    else r) (orders s)\<rparr>)"
proof -
  from assms(2) obtain row rest where av: "available_links s = row # rest"
    using available_links_empty [of s] by (cases "available_links s") auto
  note h = available_links_head [OF av]
  have "map (mark_order_delivered oid (link row)) (orders s) =
        map (\<lambda>r. if order_id r = oid
                  then r\<lparr>order_status := ''delivered'', delivered_link := Some (link row)\<rparr>
                  else r) (orders s)"
    by (rule map_cong) (simp_all add: mark_order_delivered_def)
  then have "pop_available_link_for_order oid uid s =
             (Some (link row),
              s\<lparr>links := map (\<lambda>r. if r = row
                    then r\<lparr>is_used := 1, used_by_order_id := Some oid, used_by_user_id := Some uid\<rparr>
                    else r) (links s),
                orders := map (\<lambda>r. if order_id r = oid
                    then r\<lparr>order_status := ''delivered'', delivered_link := Some (link row)\<rparr>
                    else r) (orders s)\<rparr>)"
    using av h mark_link_used_row [OF assms(1), of row oid uid]
    by (simp add: pop_available_link_for_order_def)
  with h show ?thesis by blast
qed

lemma pop_none:
  assumes "\<not> (\<exists>r \<in> set (links s). is_used r = 0)"
  shows "pop_available_link_for_order oid uid s = (None, s)"
  using assms available_links_empty [of s] by (simp add: pop_available_link_for_order_def)

lemma map_upd_one_keeps:
  "x \<in> set ls \<Longrightarrow> x \<noteq> row \<Longrightarrow> x \<in> set (map (\<lambda>r. if r = row then g r else r) ls)"
  by (induction ls) auto

lemma map_upd_one_has:
  "row \<in> set ls \<Longrightarrow> g row \<in> set (map (\<lambda>r. if r = row then g r else r) ls)"
  by (induction ls) auto

lemma map_upd_one_from:
  "y \<in> set (map (\<lambda>r. if r = row then g r else r) ls) \<Longrightarrow> y \<in> set ls \<or> y = g row"
  by (induction ls) (auto split: if_splits)

lemma map_upd_one_proj:
  "f (g row) = f row \<Longrightarrow> map f (map (\<lambda>r. if r = row then g r else r) ls) = map f ls"
  by (induction ls) auto

lemma pop_links_effect:
  assumes "distinct (map link_id (links s))"
    and "pop_available_link_for_order oid uid s = (res, s1)"
  shows "map link_id (links s1) = map link_id (links s) \<and>
         map link (links s1) = map link (links s) \<and>
         (\<forall>r \<in> set (links s). is_used r \<noteq> 0 \<longrightarrow> r \<in> set (links s1)) \<and>
         (\<forall>r \<in> set (links s1). is_used r = 0 \<longrightarrow> r \<in> set (links s) ) \<and>
         (\<forall>t. res = Some t \<longrightarrow>
            (\<exists>r \<in> set (links s). link r = t \<and> is_used r = 0) \<and>
            (\<exists>r \<in> set (links s1). link r = t \<and> is_used r = 1 \<and>
               used_by_order_id r = Some oid \<and> used_by_user_id r = Some uid))"
proof (cases "\<exists>r \<in> set (links s). is_used r = 0")
  case False
  have "res = None" "s1 = s"
    using assms(2) pop_none [OF False, of oid uid] by simp_all
  with False show ?thesis by simp
next
  case True
  define g where "g = (\<lambda>r::link_row.
     r\<lparr>is_used := 1, used_by_order_id := Some oid, used_by_user_id := Some uid\<rparr>)"
  from pop_some [OF assms(1) True, of oid uid]
  obtain row where row: "row \<in> set (links s)" "is_used row = 0"
    and pop: "pop_available_link_for_order oid uid s =
             (Some (link row),
              s\<lparr>links := map (\<lambda>r. if r = row then g r else r) (links s),
                orders := map (\<lambda>r. if order_id r = oid
                    then r\<lparr>order_status := ''delivered'', delivered_link := Some (link row)\<rparr>
                    else r) (orders s)\<rparr>)"
    unfolding g_def by blast
  have res: "res = Some (link row)"
    using pop assms(2) by simp
  have "s1 = s\<lparr>links := map (\<lambda>r. if r = row then g r else r) (links s),
                orders := map (\<lambda>r. if order_id r = oid
                    then r\<lparr>order_status := ''delivered'', delivered_link := Some (link row)\<rparr>
                    else r) (orders s)\<rparr>"
    using pop assms(2) by simp
  then have ls: "links s1 = map (\<lambda>r. if r = row then g r else r) (links s)"
    by simp
  have g1: "link_id (g row) = link_id row" "link (g row) = link row" "is_used (g row) = 1"
    "used_by_order_id (g row) = Some oid" "used_by_user_id (g row) = Some uid"
    by (simp_all add: g_def)
  have in1: "g row \<in> set (links s1)"
    unfolding ls by (rule map_upd_one_has [OF row(1)])
  have a: "map link_id (links s1) = map link_id (links s)"
    unfolding ls using g1(1) by (rule map_upd_one_proj [of link_id g row])
  have b: "map link (links s1) = map link (links s)"
    unfolding ls using g1(2) by (rule map_upd_one_proj [of link g row])
  have c: "\<forall>r \<in> set (links s). is_used r \<noteq> 0 \<longrightarrow> r \<in> set (links s1)"
  proof (intro ballI impI)
    fix r assume "r \<in> set (links s)" "is_used r \<noteq> 0"
    moreover from this row(2) have "r \<noteq> row" by auto
    ultimately show "r \<in> set (links s1)"
      unfolding ls by (intro map_upd_one_keeps)
  qed
  have d: "\<forall>r \<in> set (links s1). is_used r = 0 \<longrightarrow> r \<in> set (links s)"
  proof (intro ballI impI)
    fix r assume "r \<in> set (links s1)" "is_used r = 0"
    then have "r \<in> set (links s) \<or> r = g row"
      unfolding ls using map_upd_one_from [of r row g "links s"] by simp
    with \<open>is_used r = 0\<close> g1(3) show "r \<in> set (links s)" by auto
  qed
  have e1: "\<exists>r \<in> set (links s). link r = link row \<and> is_used r = 0"
    using row by blast
  have e2: "\<exists>r \<in> set (links s1). link r = link row \<and> is_used r = 1 \<and>
               used_by_order_id r = Some oid \<and> used_by_user_id r = Some uid"
    using in1 g1 by blast
  have e: "\<forall>t. res = Some t \<longrightarrow>
            (\<exists>r \<in> set (links s). link r = t \<and> is_used r = 0) \<and>
            (\<exists>r \<in> set (links s1). link r = t \<and> is_used r = 1 \<and>
               used_by_order_id r = Some oid \<and> used_by_user_id r = Some uid)"
    using e1 e2 unfolding res by simp
  from a b c d e show ?thesis by (intro conjI)
qed

lemma returned_tokens_set: "t \<in> set (returned_tokens rs) \<longleftrightarrow> Some t \<in> set rs"
  by (induction rs rule: returned_tokens.induct) auto

lemma allocate_calls_length: "length (fst (allocate_calls cs s)) = length cs"
  by (induction cs arbitrary: s) (auto simp: split_beta)

lemma allocate_calls_links:
  assumes "distinct (map link_id (links s))"
  shows "map link_id (links (snd (allocate_calls cs s))) = map link_id (links s) \<and>
         map link (links (snd (allocate_calls cs s))) = map link (links s) \<and>
         (\<forall>r \<in> set (links s). is_used r \<noteq> 0 \<longrightarrow> r \<in> set (links (snd (allocate_calls cs s)))) \<and>
         (\<forall>t. Some t \<in> set (fst (allocate_calls cs s)) \<longrightarrow>
            (\<exists>r \<in> set (links s). link r = t \<and> is_used r = 0))"
  using assms
proof (induction cs arbitrary: s)
  case Nil
  then show ?case by simp
next
  case (Cons c cs)
  obtain oid uid where c: "c = (oid, uid)" by (cases c)
  obtain res s1 where p: "pop_available_link_for_order oid uid s = (res, s1)"
    by (cases "pop_available_link_for_order oid uid s")
  note e = pop_links_effect [OF Cons.prems p]
  have d1: "distinct (map link_id (links s1))"
    using e Cons.prems by simp
  note ih = Cons.IH [OF d1]
  have run: "allocate_calls (c # cs) s =
     (res # fst (allocate_calls cs s1), snd (allocate_calls cs s1))"
    using c p by (simp add: split_beta)
  show ?case
    unfolding run fst_conv snd_conv
  proof (intro conjI ballI allI impI)
    show "map link_id (links (snd (allocate_calls cs s1))) = map link_id (links s)"
      using ih e by simp
    show "map link (links (snd (allocate_calls cs s1))) = map link (links s)"
      using ih e by simp
  next
    fix r assume "r \<in> set (links s)" "is_used r \<noteq> 0"
    then have "r \<in> set (links s1)" using e by blast
    then show "r \<in> set (links (snd (allocate_calls cs s1)))"
      using ih \<open>is_used r \<noteq> 0\<close> by blast
  next
    fix t assume "Some t \<in> set (res # fst (allocate_calls cs s1))"
    then consider "res = Some t" | "Some t \<in> set (fst (allocate_calls cs s1))" by auto
    then show "\<exists>r \<in> set (links s). link r = t \<and> is_used r = 0"
    proof cases
      case 1
      then show ?thesis using e by blast
    next
      case 2
      then obtain r where "r \<in> set (links s1)" "link r = t" "is_used r = 0"
        using ih by blast
      then show ?thesis using e by blast
    qed
  qed
qed

lemma distinct_map_eq:
  assumes "distinct (map f xs)" and "x \<in> set xs" and "y \<in> set xs" and "f x = f y"
  shows "x = y"
  using assms by (meson distinct_map inj_onD)

lemma allocate_calls_assignment:
  assumes "distinct (map link_id (links s))" and "distinct (map link (links s))"
  shows "distinct (returned_tokens (fst (allocate_calls cs s))) \<and>
         (\<forall>k < length cs. \<forall>t. fst (allocate_calls cs s) ! k = Some t \<longrightarrow>
            (\<exists>r \<in> set (links (snd (allocate_calls cs s))). link r = t \<and> is_used r = 1 \<and>
               used_by_order_id r = Some (fst (cs ! k)) \<and>
               used_by_user_id r = Some (snd (cs ! k))))"
  using assms
proof (induction cs arbitrary: s)
  case Nil
  then show ?case by simp
next
  case (Cons c cs)
  obtain oid uid where c: "c = (oid, uid)" by (cases c)
  obtain res s1 where p: "pop_available_link_for_order oid uid s = (res, s1)"
    by (cases "pop_available_link_for_order oid uid s")
  note e = pop_links_effect [OF Cons.prems(1) p]
  have d1: "distinct (map link_id (links s1))" and d2: "distinct (map link (links s1))"
    using e Cons.prems by simp_all
  note ih = Cons.IH [OF d1 d2]
  note al = allocate_calls_links [OF d1, of cs]
  have run: "allocate_calls (c # cs) s =
     (res # fst (allocate_calls cs s1), snd (allocate_calls cs s1))"
    using c p by (simp add: split_beta)
  have fresh: "t \<notin> set (returned_tokens (fst (allocate_calls cs s1)))" if "res = Some t" for t
  proof
    assume "t \<in> set (returned_tokens (fst (allocate_calls cs s1)))"
    then obtain r where r: "r \<in> set (links s1)" "link r = t" "is_used r = 0"
      using al by (auto simp: returned_tokens_set)
    from that e obtain r1 where r1: "r1 \<in> set (links s1)" "link r1 = t" "is_used r1 = 1"
      by blast
    have "r = r1"
      using distinct_map_eq [OF d2 r(1) r1(1)] r(2) r1(2) by simp
    with r(3) r1(3) show False by simp
  qed
  have dist: "distinct (returned_tokens (res # fst (allocate_calls cs s1)))"
    using ih fresh by (cases res) simp_all
  have assign: "\<exists>r \<in> set (links (snd (allocate_calls cs s1))). link r = t \<and> is_used r = 1 \<and>
               used_by_order_id r = Some (fst ((c # cs) ! k)) \<and>
               used_by_user_id r = Some (snd ((c # cs) ! k))"
    if "k < length (c # cs)" and "(res # fst (allocate_calls cs s1)) ! k = Some t" for k t
  proof (cases k)
    case 0
    with that e obtain r1 where r1: "r1 \<in> set (links s1)" "link r1 = t" "is_used r1 = 1"
      "used_by_order_id r1 = Some oid" "used_by_user_id r1 = Some uid"
      by auto
    then have "r1 \<in> set (links (snd (allocate_calls cs s1)))"
      using al by auto
    with r1 0 c show ?thesis by auto
  next
    case (Suc j)
    with that ih show ?thesis by auto
  qed
  show ?case
    unfolding run fst_conv snd_conv
  proof (intro conjI allI impI)
    show "distinct (returned_tokens (res # fst (allocate_calls cs s1)))" by (rule dist)
  next
    fix k t assume "k < length (c # cs)" "(res # fst (allocate_calls cs s1)) ! k = Some t"
    then show "\<exists>r \<in> set (links (snd (allocate_calls cs s1))). link r = t \<and> is_used r = 1 \<and>
               used_by_order_id r = Some (fst ((c # cs) ! k)) \<and>
               used_by_user_id r = Some (snd ((c # cs) ! k))"
      by (rule assign)
  qed
qed

text \<open>
  C1.  With the primary key and the \<^verbatim>\<open>UNIQUE\<close> constraint of the links table in force:
  when an unused link exists, \<^verbatim>\<open>pop_available_link_for_order\<close> returns the text of the
  unused row with the smallest id, marks exactly that row used by the order and the user,
  and sets status \<^verbatim>\<open>delivered\<close> and the link on the order's row; when none exists it
  returns \<^verbatim>\<open>None\<close> and leaves the whole store as it was.  Over any sequence of calls the
  returned tokens are pairwise different, the token returned by the k-th call is stored
  once, used, with the order and user of the k-th call, and a row that was used before
  the sequence is still there unchanged.
\<close>

theorem pop_available_link_exactly_once:
  assumes "distinct (map link_id (links s))" and "distinct (map link (links s))"
  shows "((\<exists>r \<in> set (links s). is_used r = 0) \<longrightarrow>
           (\<exists>row \<in> set (links s). is_used row = 0 \<and>
              (\<forall>r \<in> set (links s). is_used r = 0 \<longrightarrow> link_id row \<le> link_id r) \<and>
              pop_available_link_for_order oid uid s =
                (Some (link row),
                 s\<lparr>links := map (\<lambda>r. if r = row
                       then r\<lparr>is_used := 1, used_by_order_id := Some oid,
                              used_by_user_id := Some uid\<rparr>
                       else r) (links s),
                   orders := map (\<lambda>r. if order_id r = oid
                       then r\<lparr>order_status := ''delivered'', delivered_link := Some (link row)\<rparr>
                       else r) (orders s)\<rparr>))) \<and>
         (\<not> (\<exists>r \<in> set (links s). is_used r = 0) \<longrightarrow>
            pop_available_link_for_order oid uid s = (None, s)) \<and>
         distinct (returned_tokens (fst (allocate_calls cs s))) \<and>
         (\<forall>k < length cs. \<forall>t. fst (allocate_calls cs s) ! k = Some t \<longrightarrow>
            (\<exists>!r. r \<in> set (links (snd (allocate_calls cs s))) \<and> link r = t) \<and>
            (\<forall>r \<in> set (links (snd (allocate_calls cs s))). link r = t \<longrightarrow>
               is_used r = 1 \<and> used_by_order_id r = Some (fst (cs ! k)) \<and>
               used_by_user_id r = Some (snd (cs ! k)))) \<and>
         (\<forall>r \<in> set (links s). is_used r \<noteq> 0 \<longrightarrow> r \<in> set (links (snd (allocate_calls cs s))))"
proof (intro conjI)
  show "(\<exists>r \<in> set (links s). is_used r = 0) \<longrightarrow>
           (\<exists>row \<in> set (links s). is_used row = 0 \<and>
              (\<forall>r \<in> set (links s). is_used r = 0 \<longrightarrow> link_id row \<le> link_id r) \<and>
              pop_available_link_for_order oid uid s =
                (Some (link row),
                 s\<lparr>links := map (\<lambda>r. if r = row
                       then r\<lparr>is_used := 1, used_by_order_id := Some oid,
                              used_by_user_id := Some uid\<rparr>
                       else r) (links s),
                   orders := map (\<lambda>r. if order_id r = oid
                       then r\<lparr>order_status := ''delivered'', delivered_link := Some (link row)\<rparr>
                       else r) (orders s)\<rparr>))"
    using pop_some [OF assms(1), of oid uid] by (intro impI)
  show "\<not> (\<exists>r \<in> set (links s). is_used r = 0) \<longrightarrow>
            pop_available_link_for_order oid uid s = (None, s)"
    using pop_none [of s oid uid] by (intro impI)
  show "distinct (returned_tokens (fst (allocate_calls cs s)))"
    using allocate_calls_assignment [OF assms, of cs] by (rule conjunct1)
  let ?s' = "snd (allocate_calls cs s)"
  have dl: "distinct (map link (links ?s'))"
    using allocate_calls_links [OF assms(1), of cs] assms(2) by simp
  show "\<forall>k < length cs. \<forall>t. fst (allocate_calls cs s) ! k = Some t \<longrightarrow>
            (\<exists>!r. r \<in> set (links ?s') \<and> link r = t) \<and>
            (\<forall>r \<in> set (links ?s'). link r = t \<longrightarrow>
               is_used r = 1 \<and> used_by_order_id r = Some (fst (cs ! k)) \<and>
               used_by_user_id r = Some (snd (cs ! k)))"
  proof (intro allI impI)
    fix k t assume k: "k < length cs" and t: "fst (allocate_calls cs s) ! k = Some t"
    from allocate_calls_assignment [OF assms, of cs] k t
    obtain r0 where r0: "r0 \<in> set (links ?s')" "link r0 = t" "is_used r0 = 1"
      "used_by_order_id r0 = Some (fst (cs ! k))" "used_by_user_id r0 = Some (snd (cs ! k))"
      by blast
    have only: "r = r0" if "r \<in> set (links ?s')" "link r = t" for r
      using distinct_map_eq [OF dl that(1) r0(1)] that(2) r0(2) by simp
    have "\<exists>!r. r \<in> set (links ?s') \<and> link r = t"
      using r0(1,2) only by blast
    moreover have "\<forall>r \<in> set (links ?s'). link r = t \<longrightarrow>
               is_used r = 1 \<and> used_by_order_id r = Some (fst (cs ! k)) \<and>
               used_by_user_id r = Some (snd (cs ! k))"
      using only r0 by blast
    ultimately show "(\<exists>!r. r \<in> set (links ?s') \<and> link r = t) \<and>
            (\<forall>r \<in> set (links ?s'). link r = t \<longrightarrow>
               is_used r = 1 \<and> used_by_order_id r = Some (fst (cs ! k)) \<and>
               used_by_user_id r = Some (snd (cs ! k)))"
      by (rule conjI)
  qed
  show "\<forall>r \<in> set (links s). is_used r \<noteq> 0 \<longrightarrow> r \<in> set (links ?s')"
    using allocate_calls_links [OF assms(1), of cs] by blast
qed

text \<open>Two links and three calls: the links leave in id order and the third call gets none.\<close>

theorem pop_available_link_exactly_once_witness:
  "fst (allocate_calls [(1, 10), (2, 20), (3, 30)]
     (empty_db\<lparr>links :=
        [\<lparr>link_id = 2, link = ''B'', is_used = 0, used_by_order_id = None, used_by_user_id = None\<rparr>,
         \<lparr>link_id = 1, link = ''A'', is_used = 0, used_by_order_id = None, used_by_user_id = None\<rparr>]\<rparr>))
     = [Some ''A'', Some ''B'', None] \<and>
   distinct (returned_tokens (fst (allocate_calls [(1, 10), (2, 20), (3, 30)]
     (empty_db\<lparr>links :=
        [\<lparr>link_id = 2, link = ''B'', is_used = 0, used_by_order_id = None, used_by_user_id = None\<rparr>,
         \<lparr>link_id = 1, link = ''A'', is_used = 0, used_by_order_id = None, used_by_user_id = None\<rparr>]\<rparr>))))"
  using pop_available_link_exactly_once [where s =
     "empty_db\<lparr>links :=
        [\<lparr>link_id = 2, link = ''B'', is_used = 0, used_by_order_id = None, used_by_user_id = None\<rparr>,
         \<lparr>link_id = 1, link = ''A'', is_used = 0, used_by_order_id = None, used_by_user_id = None\<rparr>]\<rparr>"
     and cs = "[(1, 10), (2, 20), (3, 30)]" and oid = 1 and uid = 10]
  by (simp add: empty_db_def pop_available_link_for_order_def available_links_def
      mark_link_used_def mark_order_delivered_def)

section \<open>Links pool: adding links\<close>

lemma add_links_loop_spec:
  "\<exists>new. add_links_loop lns inserted s =
            (inserted + int (length new),
             s\<lparr>links := links s @ new, links_seq := links_seq s + int (length new)\<rparr>) \<and>
         distinct (map link new) \<and>
         set (map link new) = (strip ` set lns - {[]}) - link ` set (links s) \<and>
         (\<forall>r \<in> set new. is_used r = 0 \<and> used_by_order_id r = None \<and> used_by_user_id r = None)"
proof (induction lns arbitrary: inserted s)
  case Nil
  have "add_links_loop [] inserted s =
          (inserted + int (length ([]::link_row list)),
           s\<lparr>links := links s @ [], links_seq := links_seq s + int (length ([]::link_row list))\<rparr>)"
    by simp
  then show ?case by (intro exI [of _ "[]"]) simp
next
  case (Cons v lns)
  let ?v = "strip v"
  let ?L = "link ` set (links s)"
  consider (empty) "?v = []" | (dup) "?v \<noteq> []" "?v \<in> ?L" | (fresh) "?v \<noteq> []" "?v \<notin> ?L"
    by blast
  then show ?case
  proof cases
    case empty
    from Cons.IH [of inserted s] obtain new where
      n: "add_links_loop lns inserted s =
            (inserted + int (length new),
             s\<lparr>links := links s @ new, links_seq := links_seq s + int (length new)\<rparr>)"
      "distinct (map link new)"
      "set (map link new) = (strip ` set lns - {[]}) - ?L"
      "\<forall>r \<in> set new. is_used r = 0 \<and> used_by_order_id r = None \<and> used_by_user_id r = None"
      by blast
    have "set (map link new) = (strip ` set (v # lns) - {[]}) - ?L"
      using n(3) empty by auto
    moreover have "add_links_loop (v # lns) inserted s = add_links_loop lns inserted s"
      using empty by simp
    ultimately show ?thesis using n by metis
  next
    case dup
    from Cons.IH [of inserted s] obtain new where
      n: "add_links_loop lns inserted s =
            (inserted + int (length new),
             s\<lparr>links := links s @ new, links_seq := links_seq s + int (length new)\<rparr>)"
      "distinct (map link new)"
      "set (map link new) = (strip ` set lns - {[]}) - ?L"
      "\<forall>r \<in> set new. is_used r = 0 \<and> used_by_order_id r = None \<and> used_by_user_id r = None"
      by blast
    have "set (map link new) = (strip ` set (v # lns) - {[]}) - ?L"
      using n(3) dup by auto
    moreover have "add_links_loop (v # lns) inserted s = add_links_loop lns inserted s"
      using dup by (simp add: insert_link_def)
    ultimately show ?thesis using n by metis
  next
    case fresh
    define row where "row = \<lparr>link_id = links_seq s + 1, link = ?v, is_used = 0,
                     used_by_order_id = None, used_by_user_id = None\<rparr>"
    define s1 where "s1 = s\<lparr>links := links s @ [row], links_seq := links_seq s + 1\<rparr>"
    have ins: "insert_link ?v s = Some s1"
      using fresh by (simp add: insert_link_def s1_def row_def)
    have step: "add_links_loop (v # lns) inserted s = add_links_loop lns (inserted + 1) s1"
      using fresh ins by simp
    from Cons.IH [of "inserted + 1" s1] obtain new where
      n: "add_links_loop lns (inserted + 1) s1 =
            (inserted + 1 + int (length new),
             s1\<lparr>links := links s1 @ new, links_seq := links_seq s1 + int (length new)\<rparr>)"
      "distinct (map link new)"
      "set (map link new) = (strip ` set lns - {[]}) - link ` set (links s1)"
      "\<forall>r \<in> set new. is_used r = 0 \<and> used_by_order_id r = None \<and> used_by_user_id r = None"
      by blast
    have l1: "links s1 = links s @ [row]" and q1: "links_seq s1 = links_seq s + 1"
      by (simp_all add: s1_def)
    have lr: "link row = ?v" by (simp add: row_def)
    have a: "add_links_loop (v # lns) inserted s =
            (inserted + int (length (row # new)),
             s\<lparr>links := links s @ (row # new),
               links_seq := links_seq s + int (length (row # new))\<rparr>)"
      unfolding step n(1) by (simp add: s1_def)
    have b: "distinct (map link (row # new))"
      using n(2,3) l1 lr by auto
    have c: "set (map link (row # new)) = (strip ` set (v # lns) - {[]}) - ?L"
      using n(3) l1 lr fresh by auto
    have d: "\<forall>r \<in> set (row # new). is_used r = 0 \<and> used_by_order_id r = None \<and>
               used_by_user_id r = None"
      using n(4) by (simp add: row_def)
    from a b c d show ?thesis by blast
  qed
qed

text \<open>
  C10.  \<^verbatim>\<open>add_links\<close> returns the number of rows it appended to the links table.  Each
  input value is stripped of white space at both ends; a value that is empty after that
  is skipped; a value that is already stored, or that an earlier value of the same call
  has just stored, is refused by the \<^verbatim>\<open>UNIQUE\<close> constraint and not counted.  The appended
  rows are unused, carry no order and no user, have pairwise different texts, and their
  texts are exactly the stripped non-empty input values that were not stored before.
\<close>

theorem add_links_counts_inserted_rows:
  "\<exists>new. add_links lns s =
            (int (length new),
             s\<lparr>links := links s @ new, links_seq := links_seq s + int (length new)\<rparr>) \<and>
         distinct (map link new) \<and>
         set (map link new) = (strip ` set lns - {[]}) - link ` set (links s) \<and>
         (\<forall>r \<in> set new. is_used r = 0 \<and> used_by_order_id r = None \<and> used_by_user_id r = None)"
proof (cases "lns = []")
  case True
  then have "add_links lns s =
            (int (length ([]::link_row list)),
             s\<lparr>links := links s @ [], links_seq := links_seq s + int (length ([]::link_row list))\<rparr>)"
    by (simp add: add_links_def)
  with True show ?thesis by (intro exI [of _ "[]"]) simp
next
  case False
  then show ?thesis
    using add_links_loop_spec [of lns 0 s] by (simp add: add_links_def)
qed

theorem add_links_counts_inserted_rows_witness:
  "fst (add_links ['' a '', ''a'', ''  '', ''x'', ''b'']
     (empty_db\<lparr>links :=
        [\<lparr>link_id = 1, link = ''x'', is_used = 1, used_by_order_id = Some 1,
          used_by_user_id = Some 5\<rparr>], links_seq := 1\<rparr>)) = 2 \<and>
   map link (links (snd (add_links ['' a '', ''a'', ''  '', ''x'', ''b'']
     (empty_db\<lparr>links :=
        [\<lparr>link_id = 1, link = ''x'', is_used = 1, used_by_order_id = Some 1,
          used_by_user_id = Some 5\<rparr>], links_seq := 1\<rparr>)))) = [''x'', ''a'', ''b'']"
  using add_links_counts_inserted_rows [of "['' a '', ''a'', ''  '', ''x'', ''b'']"
     "empty_db\<lparr>links :=
        [\<lparr>link_id = 1, link = ''x'', is_used = 1, used_by_order_id = Some 1,
          used_by_user_id = Some 5\<rparr>], links_seq := 1\<rparr>"]
  by (simp add: add_links_def insert_link_def strip_def py_isspace_def empty_db_def)

section \<open>Orders waiting for a link: the backlog run\<close>

lemma distinct_map_insort_key:
  "distinct (map f (insort_key g x xs)) \<longleftrightarrow> f x \<notin> f ` set xs \<and> distinct (map f xs)"
  by (induction xs) (auto simp: set_insort_key)

lemma distinct_map_sort_key:
  "distinct (map f (sort_key g xs)) \<longleftrightarrow> distinct (map f xs)"
  by (induction xs) (simp_all add: distinct_map_insort_key)

lemma filter_unused_mark:
  "filter (\<lambda>r. is_used r = 0) (map (mark_link_used lid oid uid) ls) =
   filter (\<lambda>r. link_id r \<noteq> lid) (filter (\<lambda>r. is_used r = 0) ls)"
  by (induction ls) (simp_all add: mark_link_used_def)

lemma available_links_after_pop:
  assumes "distinct (map link_id (links s))" and "available_links s = row # rest"
    and "links s' = map (mark_link_used (link_id row) oid uid) (links s)"
  shows "available_links s' = rest"
proof -
  have d: "distinct (map link_id (row # rest))"
    using assms(1) distinct_map_filter [of link_id "links s"]
    unfolding assms(2) [symmetric] available_links_def
    by (simp add: distinct_map_sort_key)
  have "available_links s' =
        filter (\<lambda>r. link_id r \<noteq> link_id row) (available_links s)"
    unfolding available_links_def assms(3) filter_unused_mark
    by (simp add: filter_sort)
  also have "\<dots> = filter (\<lambda>r. link_id r \<noteq> link_id row) rest"
    unfolding assms(2) by simp
  also have "\<dots> = rest"
    using d by (intro filter_True) (auto simp: image_iff)
  finally show ?thesis .
qed

lemma mark_order_delivered_idem:
  "mark_order_delivered oid l (mark_order_delivered oid l x) = mark_order_delivered oid l x"
  by (simp add: mark_order_delivered_def)

lemma mark_order_delivered_twice:
  "map (mark_order_delivered oid l) (map (mark_order_delivered oid l) os) =
   map (mark_order_delivered oid l) os"
  by (simp add: mark_order_delivered_idem)

lemma mark_link_used_props:
  "map link_id (map (mark_link_used lid oid uid) ls) = map link_id ls"
  "r \<in> set (map (mark_link_used lid oid uid) ls) \<Longrightarrow> is_used r = 0 \<Longrightarrow>
     r \<in> set ls"
  by (induction ls) (auto simp: mark_link_used_def split: if_splits)

lemma fulfill_loop_spec:
  assumes "distinct (map link_id (links s))"
    and "\<forall>r \<in> set (links s). is_used r = 0 \<longrightarrow> link r \<noteq> []"
  shows "fst (fulfill_loop rs sent s) = sent + int (min (length rs) (length (available_links s))) \<and>
         orders (snd (fulfill_loop rs sent s)) =
           fold (\<lambda>(r, l). map (mark_order_delivered (order_id r) (link l)))
             (zip rs (available_links s)) (orders s) \<and>
         links (snd (fulfill_loop rs sent s)) =
           fold (\<lambda>(r, l). map (mark_link_used (link_id l) (order_id r) (order_user_id r)))
             (zip rs (available_links s)) (links s)"
  using assms
proof (induction rs arbitrary: sent s)
  case Nil
  then show ?case by simp
next
  case (Cons r rs)
  show ?case
  proof (cases "available_links s")
    case Nil
    then have "fulfill_loop (r # rs) sent s = (sent, s)"
      by (simp add: pop_available_link_for_order_def)
    with Nil show ?thesis by simp
  next
    case (Cons row rest)
    define s1 where "s1 = s\<lparr>links := map (mark_link_used (link_id row) (order_id r) (order_user_id r)) (links s),
             orders := map (mark_order_delivered (order_id r) (link row)) (orders s)\<rparr>"
    define s2 where "s2 = set_order_delivered (order_id r) (link row) s1"
    have pop: "pop_available_link_for_order (order_id r) (order_user_id r) s = (Some (link row), s1)"
      using Cons by (simp add: pop_available_link_for_order_def s1_def)
    have rowin: "row \<in> set (links s)" "is_used row = 0"
      using available_links_head [OF Cons] by simp_all
    then have ne: "link row \<noteq> []"
      using Cons.prems(2) by blast
    have step: "fulfill_loop (r # rs) sent s = fulfill_loop rs (sent + 1) s2"
      using pop ne by (simp add: s2_def)
    have l2: "links s2 = map (mark_link_used (link_id row) (order_id r) (order_user_id r)) (links s)"
      by (simp add: s2_def s1_def set_order_delivered_def)
    have o2: "orders s2 = map (mark_order_delivered (order_id r) (link row)) (orders s)"
      by (simp add: s2_def s1_def set_order_delivered_def mark_order_delivered_idem)
    have d2: "distinct (map link_id (links s2))"
      using Cons.prems(1) unfolding l2 by (simp only: mark_link_used_props(1))
    have n2: "\<forall>x \<in> set (links s2). is_used x = 0 \<longrightarrow> link x \<noteq> []"
      using Cons.prems(2) mark_link_used_props(2) unfolding l2 by blast
    have a2: "available_links s2 = rest"
      by (rule available_links_after_pop [OF Cons.prems(1) Cons l2])
    note ih = Cons.IH [OF d2 n2, of "sent + 1"]
    show ?thesis
      unfolding step Cons using ih unfolding a2 o2 l2 by simp
  qed
qed

lemma list_pending_orders_50:
  "list_pending_orders 50 s =
     take 50 (sort_key order_id (filter (\<lambda>r. order_status r = ''paid_waiting_link'') (orders s)))"
  by (simp add: list_pending_orders_def)

lemma admin_links_fulfill_general:
  assumes "caller \<in> admin_ids" and "distinct (map link_id (links s))"
    and "\<forall>r \<in> set (links s). is_used r = 0 \<longrightarrow> link r \<noteq> []"
  shows "sent_count (fst (admin_links_fulfill admin_ids caller s)) =
           int (min (min 50 (length (filter (\<lambda>r. order_status r = ''paid_waiting_link'') (orders s))))
                    (length (filter (\<lambda>r. is_used r = 0) (links s)))) \<and>
         orders (snd (admin_links_fulfill admin_ids caller s)) =
           fold (\<lambda>(r, l). map (mark_order_delivered (order_id r) (link l)))
             (zip (list_pending_orders 50 s) (available_links s)) (orders s) \<and>
         links (snd (admin_links_fulfill admin_ids caller s)) =
           fold (\<lambda>(r, l). map (mark_link_used (link_id l) (order_id r) (order_user_id r)))
             (zip (list_pending_orders 50 s) (available_links s)) (links s)"
proof -
  let ?pending = "list_pending_orders 50 s"
  have lp: "length ?pending =
      min 50 (length (filter (\<lambda>r. order_status r = ''paid_waiting_link'') (orders s)))"
    by (simp add: list_pending_orders_50 min.commute)
  have la: "length (available_links s) = length (filter (\<lambda>r. is_used r = 0) (links s))"
    by (simp add: available_links_def)
  show ?thesis
  proof (cases "?pending = []")
    case True
    then have "admin_links_fulfill admin_ids caller s = (NoPending, s)"
      using assms(1) by (simp add: admin_links_fulfill_def)
    moreover have "length ?pending = 0" using True by simp
    ultimately show ?thesis
      using True lp by simp
  next
    case False
    note fl = fulfill_loop_spec [OF assms(2,3), of ?pending 0]
    obtain sent s' where r: "fulfill_loop ?pending 0 s = (sent, s')"
      by (cases "fulfill_loop ?pending 0 s")
    have sent: "sent = int (min (length ?pending) (length (available_links s)))"
      using fl r by simp
    have "sent_count (fst (admin_links_fulfill admin_ids caller s)) = sent"
      using assms(1) False r
      by (simp add: admin_links_fulfill_def Let_def split_beta)
    moreover have "snd (admin_links_fulfill admin_ids caller s) = s'"
      using assms(1) False r
      by (simp add: admin_links_fulfill_def Let_def split_beta)
    ultimately show ?thesis
      using fl r sent lp la by simp
  qed
qed

lemma backlog_db_facts:
  "distinct (map link_id (links backlog_db))"
  "\<forall>r \<in> set (links backlog_db). is_used r = 0 \<longrightarrow> link r \<noteq> []"
  "length (filter (\<lambda>r. order_status r = ''paid_waiting_link'') (orders backlog_db)) = 51"
  "length (filter (\<lambda>r. is_used r = 0) (links backlog_db)) = 51"
  by (simp_all add: backlog_db_def empty_db_def comp_def distinct_map inj_on_def)

text \<open>
  C9, as the code has it.  For a caller who is an admin, a links table with pairwise
  different ids and no unused link with an empty text: \<^verbatim>\<open>admin_links_fulfill\<close> takes the
  orders with status \<^verbatim>\<open>paid_waiting_link\<close> by ascending id, at most the first 50 of them
  (\<^verbatim>\<open>list_pending_orders(50)\<close>), and serves them in that order, the k-th of them with the
  k-th unused link by ascending id, until the orders taken or the unused links run out.
  The number it reports is the minimum of 50, the number of waiting orders and the number
  of unused links at the start.
\<close>

theorem admin_links_fulfill_oldest_first:
  assumes "caller \<in> admin_ids" and "distinct (map link_id (links s))"
    and "\<forall>r \<in> set (links s). is_used r = 0 \<longrightarrow> link r \<noteq> []"
  shows "list_pending_orders 50 s =
           take 50 (sort_key order_id
             (filter (\<lambda>r. order_status r = ''paid_waiting_link'') (orders s))) \<and>
         sorted (map order_id (list_pending_orders 50 s)) \<and>
         sorted (map link_id (available_links s)) \<and>
         sent_count (fst (admin_links_fulfill admin_ids caller s)) =
           int (min (min 50 (length (filter (\<lambda>r. order_status r = ''paid_waiting_link'') (orders s))))
                    (length (filter (\<lambda>r. is_used r = 0) (links s)))) \<and>
         orders (snd (admin_links_fulfill admin_ids caller s)) =
           fold (\<lambda>(r, l). map (mark_order_delivered (order_id r) (link l)))
             (zip (list_pending_orders 50 s) (available_links s)) (orders s) \<and>
         links (snd (admin_links_fulfill admin_ids caller s)) =
           fold (\<lambda>(r, l). map (mark_link_used (link_id l) (order_id r) (order_user_id r)))
             (zip (list_pending_orders 50 s) (available_links s)) (links s)"
proof -
  have "sorted (map order_id (list_pending_orders 50 s))"
    unfolding list_pending_orders_50 take_map [symmetric]
    by (intro sorted_wrt_take sorted_sort_key)
  moreover have "sorted (map link_id (available_links s))"
    unfolding available_links_def by (rule sorted_sort_key)
  ultimately show ?thesis
    using admin_links_fulfill_general [OF assms] list_pending_orders_50 [of s] by simp
qed

text \<open>Two waiting orders, stored newest first, and one link: the older order gets it.\<close>

theorem admin_links_fulfill_oldest_first_witness:
  "admin_links_fulfill {1} 1
     (empty_db\<lparr>orders :=
        [\<lparr>order_id = 2, order_user_id = 8, plan_months = 2, order_amount = 150000,
          order_status = ''paid_waiting_link'', delivered_link = None\<rparr>,
         \<lparr>order_id = 1, order_user_id = 7, plan_months = 2, order_amount = 150000,
          order_status = ''paid_waiting_link'', delivered_link = None\<rparr>],
       links :=
        [\<lparr>link_id = 1, link = ''A'', is_used = 0, used_by_order_id = None,
          used_by_user_id = None\<rparr>]\<rparr>) =
   (Sent 1 0,
    empty_db\<lparr>orders :=
        [\<lparr>order_id = 2, order_user_id = 8, plan_months = 2, order_amount = 150000,
          order_status = ''paid_waiting_link'', delivered_link = None\<rparr>,
         \<lparr>order_id = 1, order_user_id = 7, plan_months = 2, order_amount = 150000,
          order_status = ''delivered'', delivered_link = Some ''A''\<rparr>],
       links :=
        [\<lparr>link_id = 1, link = ''A'', is_used = 1, used_by_order_id = Some 1,
          used_by_user_id = Some 7\<rparr>]\<rparr>)"
  using admin_links_fulfill_oldest_first [where caller = 1 and admin_ids = "{1}" and s =
     "empty_db\<lparr>orders :=
        [\<lparr>order_id = 2, order_user_id = 8, plan_months = 2, order_amount = 150000,
          order_status = ''paid_waiting_link'', delivered_link = None\<rparr>,
         \<lparr>order_id = 1, order_user_id = 7, plan_months = 2, order_amount = 150000,
          order_status = ''paid_waiting_link'', delivered_link = None\<rparr>],
       links :=
        [\<lparr>link_id = 1, link = ''A'', is_used = 0, used_by_order_id = None,
          used_by_user_id = None\<rparr>]\<rparr>"]
  by (simp add: empty_db_def admin_links_fulfill_def list_pending_orders_def
      pop_available_link_for_order_def available_links_def set_order_delivered_def
      mark_link_used_def mark_order_delivered_def count_links_def)

text \<open>
  With 51 waiting orders and 51 unused links the run serves 50 orders, not the minimum of
  the two numbers.
\<close>

theorem admin_links_fulfill_limit_counterexample:
  "sent_count (fst (admin_links_fulfill {1} 1 backlog_db)) \<noteq>
     int (min (length (filter (\<lambda>r. order_status r = ''paid_waiting_link'') (orders backlog_db)))
              (length (filter (\<lambda>r. is_used r = 0) (links backlog_db))))"
proof -
  have "sent_count (fst (admin_links_fulfill {1} 1 backlog_db)) = 50"
    using admin_links_fulfill_general [OF _ backlog_db_facts(1,2), of 1 "{1}"]
    unfolding backlog_db_facts(3,4) by simp
  then show ?thesis
    unfolding backlog_db_facts(3,4) by simp
qed

section \<open>The commission in binary64\<close>

declare bit_length.simps [simp del]

lemma bit_length_0: "bit_length 0 = 0"
  by (subst bit_length.simps) simp

lemma bit_length_1: "bit_length (Suc 0) = Suc 0"
  by (subst bit_length.simps) (simp add: bit_length_0)

lemma bit_length_bounds:
  "n \<noteq> 0 \<Longrightarrow> 2 ^ (bit_length n - 1) \<le> n \<and> n < 2 ^ bit_length n"
proof (induction n rule: bit_length.induct)
  case (1 n)
  show ?case
  proof (cases "n div 2 = 0")
    case True
    with 1 have "n = 1" by (simp add: div_eq_0_iff)
    then show ?thesis
      by (simp add: bit_length_1)
  next
    case False
    from 1 False have ih: "2 ^ (bit_length (n div 2) - 1) \<le> n div 2" "n div 2 < 2 ^ bit_length (n div 2)"
      by simp_all
    have bl: "bit_length n = Suc (bit_length (n div 2))"
      using 1(2) by (subst bit_length.simps) simp
    have pos: "bit_length (n div 2) \<noteq> 0"
      using False by (subst bit_length.simps) simp
    then obtain k where k: "bit_length (n div 2) = Suc k" by (cases "bit_length (n div 2)") auto
    show ?thesis
      using ih unfolding bl k by (simp, linarith)
  qed
qed

lemma round53_small: "n < 2 ^ 53 \<Longrightarrow> round53 n = n"
  by (simp add: round53_def)

lemma round53_large:
  assumes "2 ^ 53 \<le> n"
  obtains sh t where "1 \<le> sh" "2 ^ (sh + 52) \<le> n" "n < 2 ^ (sh + 53)"
    "round53 n = t * 2 ^ sh" "2 * n \<le> 2 * round53 n + 2 ^ sh" "2 * round53 n \<le> 2 * n + 2 ^ sh"
proof -
  define sh where "sh = bit_length n - 53"
  define q where "q = n div 2 ^ sh"
  define r where "r = n mod 2 ^ sh"
  define h where "h = (2::nat) ^ (sh - 1)"
  have n0: "n \<noteq> 0" using assms by auto
  note b = bit_length_bounds [OF n0]
  have "(2::nat) ^ 53 < 2 ^ bit_length n"
    using assms b by linarith
  moreover have "1 < (2::nat)" by simp
  ultimately have bl: "53 < bit_length n"
    using power_less_imp_less_exp by blast
  then have sh1: "1 \<le> sh" and bl': "bit_length n = sh + 53" by (simp_all add: sh_def)
  have lo: "2 ^ (sh + 52) \<le> n" and hi: "n < 2 ^ (sh + 53)"
    using b unfolding bl' by (simp_all add: add.commute)
  have hh: "2 * h = 2 ^ sh"
    using sh1 unfolding h_def by (cases sh) simp_all
  have nqr: "q * 2 ^ sh + r = n"
    unfolding q_def r_def by (rule div_mult_mod_eq)
  have rlt: "r < 2 ^ sh"
    unfolding r_def by (rule mod_less_divisor) simp
  define t where "t = (if r < h \<or> (r = h \<and> even q) then q else q + 1)"
  have R: "round53 n = t * 2 ^ sh"
    using assms unfolding round53_def t_def q_def r_def h_def sh_def Let_def by simp
  have t_cases: "(t = q \<and> r \<le> h) \<or> (t = q + 1 \<and> h \<le> r)"
    unfolding t_def by auto
  have c1: "2 * n \<le> 2 * round53 n + 2 ^ sh"
    using t_cases nqr [symmetric] rlt hh unfolding R by (auto simp: algebra_simps)
  have c2: "2 * round53 n \<le> 2 * n + 2 ^ sh"
    using t_cases nqr [symmetric] rlt hh unfolding R by (auto simp: algebra_simps)
  show ?thesis
    using that [OF sh1 lo hi R c1 c2] .
qed

lemma pow2_le_cases:
  assumes "sh \<le> 52"
  shows "(2::nat) ^ sh \<le> 2 ^ 51 \<or> sh = 52"
proof (cases "sh = 52")
  case False
  with assms have "sh \<le> 51" by simp
  then have "(2::nat) ^ sh \<le> 2 ^ 51"
    by (intro power_increasing) simp_all
  then show ?thesis by blast
qed simp

lemma commission_exact_nat:
  fixes a :: nat
  assumes "a \<le> 7500000000000000"
  shows "round53 (a * REF_PERCENT_mantissa) div 2 ^ 55 = a * 15 div 100"
proof -
  define M :: nat where "M = 5404319552844595"
  define E :: nat where "E = 36028797018963968"
  define n where "n = a * M"
  define K where "K = 3 * a div 20"
  have E: "E = 2 ^ 55" by (simp add: E_def)
  have K15: "a * 15 div 100 = K"
  proof -
    have "a * 15 div 100 = (5 * (3 * a)) div (5 * 20)" by (simp add: mult.commute)
    also have "\<dots> = K" unfolding K_def by (rule div_mult_mult1) simp
    finally show ?thesis .
  qed
  have Klo: "20 * K \<le> 3 * a" and Khi: "3 * a < 20 * K + 20"
    unfolding K_def by (simp_all add: div_times_less_eq_dividend) 
  have n20: "20 * n + 4 * a = 3 * (a * E)"
    unfolding n_def M_def E_def by simp
  have nlo: "a * 4503599627370496 \<le> n" and nhi: "n \<le> a * 5404319552844595"
    unfolding n_def M_def by simp_all
  have goal: "round53 n div E = K"
  proof (cases "n < 2 ^ 53")
    case True
    then have "a \<le> 1" using nlo by simp
    then have "K = 0" unfolding K_def by simp
    moreover have "round53 n = n" using True by (rule round53_small)
    moreover have "n < E" using True unfolding E_def by simp
    ultimately show ?thesis by simp
  next
    case False
    then have "2 ^ 53 \<le> n" by simp
    then obtain sh t where sh: "1 \<le> sh" "2 ^ (sh + 52) \<le> n" "n < 2 ^ (sh + 53)"
      and R: "round53 n = t * 2 ^ sh"
      and near: "2 * n \<le> 2 * round53 n + 2 ^ sh" "2 * round53 n \<le> 2 * n + 2 ^ sh"
      by (rule round53_large)
    define P :: nat where "P = 2 ^ sh"
    have P1: "1 \<le> P" unfolding P_def by simp
    have lo: "P * 4503599627370496 \<le> n" and hi: "n < P * 9007199254740992"
      using sh(2,3) unfolding P_def by (simp_all add: power_add)
    have "n < 2 ^ 105"
      using nhi assms by simp
    with sh(2) have "(2::nat) ^ (sh + 52) < 2 ^ 105" by linarith
    moreover have "1 < (2::nat)" by simp
    ultimately have "sh + 52 < 105"
      using power_less_imp_less_exp by blast
    then have sh52: "sh \<le> 52" by simp
    define c :: nat where "c = 2 ^ (55 - sh)"
    have Ec: "E = c * P"
      unfolding E c_def P_def using sh52 by (simp add: power_add [symmetric])
    have a2P: "a < 2 * P"
      using nlo hi by simp
    have lower: "K * E \<le> round53 n"
    proof (rule ccontr)
      assume "\<not> K * E \<le> round53 n"
      then have "t * P < (K * c) * P"
        unfolding R P_def [symmetric] Ec by (simp add: mult.assoc)
      then have "t < K * c" by simp
      then have "t + 1 \<le> K * c" by simp
      then have "(t + 1) * P \<le> (K * c) * P" by (rule mult_le_mono1)
      then have "round53 n + P \<le> K * E"
        unfolding R P_def [symmetric] Ec by (simp add: algebra_simps)
      with near(1) have "2 * n + P \<le> 2 * (K * E)"
        unfolding P_def [symmetric] by simp
      moreover have "20 * (K * E) \<le> 3 * (a * E)"
      proof -
        have "(20 * K) * E \<le> (3 * a) * E" using Klo by (rule mult_le_mono1)
        then show ?thesis by (simp only: mult.assoc)
      qed
      ultimately have "10 * P \<le> 4 * a"
        using n20 by linarith
      with a2P P1 show False by linarith
    qed
    have tenP: "10 * P < E + 4 * a"
    proof -
      from pow2_le_cases [OF sh52] show ?thesis
      proof
        assume "(2::nat) ^ sh \<le> 2 ^ 51"
        then show ?thesis unfolding P_def E_def by simp
      next
        assume "sh = 52"
        then have P52: "P = 4503599627370496" unfolding P_def by simp
        with lo nhi have "2251799813685248 < a" by simp
        then show ?thesis unfolding P52 E_def by simp
      qed
    qed
    have upper: "round53 n < (K + 1) * E"
    proof -
      have "20 * round53 n \<le> 20 * n + 10 * P"
        using near(2) unfolding P_def [symmetric] by simp
      also have "\<dots> < 3 * (a * E) + E"
        using n20 tenP by linarith
      also have "\<dots> \<le> 20 * ((K + 1) * E)"
      proof -
        have "3 * a + 1 \<le> 20 * (K + 1)" using Khi by simp
        then have "(3 * a + 1) * E \<le> (20 * (K + 1)) * E" by (rule mult_le_mono1)
        then show ?thesis by (simp only: mult.assoc add_mult_distrib mult_1)
      qed
      finally show ?thesis by simp
    qed
    have "E \<noteq> 0" by (simp add: E_def)
    have "K \<le> round53 n div E"
      using lower \<open>E \<noteq> 0\<close> by (simp add: less_eq_div_iff_mult_less_eq)
    moreover have "round53 n div E < K + 1"
      using upper \<open>E \<noteq> 0\<close> by (simp add: div_less_iff_less_mult)
    ultimately show ?thesis by simp
  qed
  show ?thesis
    using goal unfolding n_def M_def E REF_PERCENT_mantissa_def K15 .
qed

lemma ref_profit_exact:
  assumes "0 \<le> amount" and "amount \<le> 7500000000000000"
  shows "ref_profit amount = Some (amount * 15 div 100)"
proof -
  define a where "a = nat amount"
  have a: "amount = int a" "a \<le> 7500000000000000"
    using assms by (simp_all add: a_def)
  have f: "round53 a = a"
    using a(2) by (intro round53_small) simp
  have "(a::nat) < 2 ^ 1024"
  proof -
    have "a < 2 ^ 53" using a(2) by simp
    also have "(2::nat) ^ 53 < 2 ^ 1024" by (intro power_strict_increasing) simp_all
    finally show ?thesis .
  qed
  then have nov: "\<not> 2 ^ 1024 \<le> a" by simp
  have p: "int (round53 (a * REF_PERCENT_mantissa) div 2 ^ 55) = int a * 15 div 100"
    unfolding commission_exact_nat [OF a(2)] by (simp add: zdiv_int)
  have "sgn (int a) * (int a * 15 div 100) = int a * 15 div 100"
    by (cases "a = 0") simp_all
  then show ?thesis
    unfolding ref_profit_def a(1) using f nov p by (simp add: Let_def)
qed

lemma ref_profit_large: "ref_profit 7505999378950833 = Some 1125899906842625"
  by (simp add: ref_profit_def round53_def bit_length.simps Let_def REF_PERCENT_mantissa_def)

section \<open>Deposits: review and commission\<close>

lemma add_wallet_balance_frame:
  assumes "in_int64 a"
  shows "\<exists>nb w'. add_wallet_balance u a s = Some (nb, s\<lparr>wallets := w'\<rparr>) \<and>
                 (\<forall>v. v \<noteq> u \<longrightarrow> w' v = wallets s v)"
proof -
  let ?w = "ensure_wallet u (wallets s)"
  let ?w' = "case ?w u of None \<Rightarrow> ?w | Some v \<Rightarrow> ?w(u \<mapsto> integer_affinity (sql_add v a))"
  have "add_wallet_balance u a s =
          Some (get_wallet_balance u (s\<lparr>wallets := ?w'\<rparr>), s\<lparr>wallets := ?w'\<rparr>)"
    using assms by (simp add: add_wallet_balance_def Let_def)
  moreover have "\<forall>v. v \<noteq> u \<longrightarrow> ?w' v = wallets s v"
    by (simp add: ensure_wallet_def split: option.splits)
  ultimately show ?thesis
    by blast
qed

lemma integer_room_wallet:
  assumes "integer_room (wallets s) u p"
  shows "integer_balance u s" and "in_int64 (get_wallet_balance u s + p)"
  using assms
  by (auto simp: integer_room_def integer_balance_def get_wallet_balance_def
      split: option.splits sql_num.splits)

lemma add_wallet_balance_room:
  assumes "integer_room (wallets s) u p" and "in_int64 p"
  shows "add_wallet_balance u p s =
           Some (get_wallet_balance u s + p,
                 s\<lparr>wallets := (wallets s)(u \<mapsto> SqlInt (get_wallet_balance u s + p))\<rparr>)"
  using integer_room_wallet(1) [OF assms(1)] assms(2) integer_room_wallet(2) [OF assms(1)]
  by (rule add_wallet_balance_integer)

lemma add_ref_profit_room:
  assumes "integer_room (referral_profits s) rid p" and "in_int64 p"
  shows "add_ref_profit rid p s =
           Some (s\<lparr>referral_profits :=
                    (referral_profits s)(rid \<mapsto> SqlInt (total_profit rid s + p))\<rparr>)"
  using assms
  by (auto simp: integer_room_def add_ref_profit_def total_profit_def
      split: option.splits sql_num.splits)

lemma set_deposit_status_row:
  "deposit_requests s dep_id = Some dep \<Longrightarrow>
   deposit_requests (set_deposit_status dep_id st s) dep_id = Some (dep\<lparr>dep_status := st\<rparr>)"
  by (simp add: set_deposit_status_def)

lemma set_deposit_status_frame:
  "users (set_deposit_status dep_id st s) = users s"
  "wallets (set_deposit_status dep_id st s) = wallets s"
  "referral_profits (set_deposit_status dep_id st s) = referral_profits s"
  by (simp_all add: set_deposit_status_def split: option.splits)

text \<open>
  A handler that finds the deposit missing or not pending is over after its first step,
  which writes nothing.
\<close>

lemma review_step_not_pending:
  assumes "\<forall>dep. get_deposit_request dep_id s = Some dep \<longrightarrow> dep_status dep \<noteq> ''pending_admin''"
  shows "review_step admin_ids (Approve_start caller dep_id) s =
           (Finished (if caller \<in> admin_ids then NotActionable else NotAllowed), s)"
    and "review_step admin_ids (Reject_start caller dep_id) s =
           (Finished (if caller \<in> admin_ids then NotActionable else NotAllowed), s)"
  using assms by (auto split: option.splits)

lemma review_not_pending:
  assumes "\<forall>dep. get_deposit_request dep_id s = Some dep \<longrightarrow> dep_status dep \<noteq> ''pending_admin''"
  shows "deposit_approve admin_ids caller dep_id s =
           (if caller \<in> admin_ids then NotActionable else NotAllowed, s)"
    and "deposit_reject admin_ids caller dep_id s =
           (if caller \<in> admin_ids then NotActionable else NotAllowed, s)"
  using review_step_not_pending [OF assms, of admin_ids caller]
  by (simp_all add: deposit_approve_def deposit_reject_def)

text \<open>
  The steps of an approval one by one, each at the store it meets.  The amount and the
  owner are those read at the first step.
\<close>

lemma approve_start_step:
  assumes "caller \<in> admin_ids" and "get_deposit_request dep_id s = Some dep"
    and "dep_status dep = ''pending_admin''"
  shows "review_step admin_ids (Approve_start caller dep_id) s =
           (Approve_set_status dep_id (dep_user_id dep) (dep_amount dep), s)"
  using assms by simp

lemma approve_get_user_step:
  assumes "get_user user_id s = Some u" and "referrer_id u = Some rid"
    and "rid \<noteq> 0" and "rid \<noteq> user_id" and "ref_profit amount = Some p"
  shows "review_step admin_ids (Approve_get_user user_id amount nb) s =
           (if 0 < p then Approve_credit_referrer rid p nb else Finished (Approved nb), s)"
  using assms by simp

lemma approve_credit_referrer_step:
  assumes "integer_room (wallets s) rid p" and "in_int64 p"
  shows "review_step admin_ids (Approve_credit_referrer rid p nb) s =
           (Approve_add_profit rid p nb,
            s\<lparr>wallets := (wallets s)(rid \<mapsto> SqlInt (get_wallet_balance rid s + p))\<rparr>)"
  using add_wallet_balance_room [OF assms] by simp

lemma approve_add_profit_step:
  assumes "integer_room (referral_profits s) rid p" and "in_int64 p"
  shows "review_step admin_ids (Approve_add_profit rid p nb) s =
           (Finished (Approved nb),
            s\<lparr>referral_profits := (referral_profits s)(rid \<mapsto> SqlInt (total_profit rid s + p))\<rparr>)"
  using add_ref_profit_room [OF assms] by simp

lemma deposit_approve_commission:
  assumes "caller \<in> admin_ids" and "get_deposit_request dep_id s = Some dep"
    and "dep_status dep = ''pending_admin''" and "in_int64 (dep_amount dep)"
    and "get_user (dep_user_id dep) s = Some u" and "referrer_id u = Some rid"
    and "rid \<noteq> 0" and "rid \<noteq> dep_user_id dep"
    and "ref_profit (dep_amount dep) = Some p" and "0 \<le> p" and "in_int64 p"
    and "integer_room (wallets s) rid p" and "integer_room (referral_profits s) rid p"
  shows "\<exists>nb. fst (deposit_approve admin_ids caller dep_id s) = Approved nb"
    and "get_wallet_balance rid (snd (deposit_approve admin_ids caller dep_id s)) =
           get_wallet_balance rid s + p"
    and "total_profit rid (snd (deposit_approve admin_ids caller dep_id s)) =
           total_profit rid s + p"
proof -
  let ?uid = "dep_user_id dep" and ?amount = "dep_amount dep"
  let ?s1 = "set_deposit_status dep_id ''approved'' s"
  obtain nb w' where add: "add_wallet_balance ?uid ?amount ?s1 = Some (nb, ?s1\<lparr>wallets := w'\<rparr>)"
    and frame: "\<And>v. v \<noteq> ?uid \<Longrightarrow> w' v = wallets ?s1 v"
    using add_wallet_balance_frame [OF assms(4), of ?uid ?s1] by blast
  let ?s2 = "?s1\<lparr>wallets := w'\<rparr>"
  have w2: "wallets ?s2 rid = wallets s rid"
    using frame [OF assms(8)] by (simp add: set_deposit_status_frame)
  have b2: "get_wallet_balance rid ?s2 = get_wallet_balance rid s"
    using w2 by (simp add: get_wallet_balance_def)
  have t2: "total_profit rid ?s2 = total_profit rid s"
    by (simp add: total_profit_def set_deposit_status_frame)
  have step1: "review_step admin_ids (Approve_start caller dep_id) s =
                 (Approve_set_status dep_id ?uid ?amount, s)"
    using assms(1-3) by (rule approve_start_step)
  have step2: "review_step admin_ids (Approve_set_status dep_id ?uid ?amount) s =
                 (Approve_credit_owner ?uid ?amount, ?s1)"
    by simp
  have step3: "review_step admin_ids (Approve_credit_owner ?uid ?amount) ?s1 =
                 (Approve_get_user ?uid ?amount nb, ?s2)"
    using add by simp
  have "get_user ?uid ?s2 = Some u"
    using assms(5) by (simp add: get_user_def set_deposit_status_frame)
  then have step4: "review_step admin_ids (Approve_get_user ?uid ?amount nb) ?s2 =
                 (if 0 < p then Approve_credit_referrer rid p nb else Finished (Approved nb), ?s2)"
    using assms(6-9) by (rule approve_get_user_step)
  have room2: "integer_room (wallets ?s2) rid p"
    using assms(12) w2 by (simp add: integer_room_def)
  let ?s3 = "?s2\<lparr>wallets := (wallets ?s2)(rid \<mapsto> SqlInt (get_wallet_balance rid ?s2 + p))\<rparr>"
  have step5: "review_step admin_ids (Approve_credit_referrer rid p nb) ?s2 =
                 (Approve_add_profit rid p nb, ?s3)"
    using room2 assms(11) by (rule approve_credit_referrer_step)
  have room3: "integer_room (referral_profits ?s3) rid p"
    using assms(13) by (simp add: integer_room_def set_deposit_status_frame)
  let ?s4 = "?s3\<lparr>referral_profits :=
                 (referral_profits ?s3)(rid \<mapsto> SqlInt (total_profit rid ?s3 + p))\<rparr>"
  have step6: "review_step admin_ids (Approve_add_profit rid p nb) ?s3 = (Finished (Approved nb), ?s4)"
    using room3 assms(11) by (rule approve_add_profit_step)
  have t3: "total_profit rid ?s3 = total_profit rid s"
    using t2 by (simp add: total_profit_def)
  have "\<exists>s'. deposit_approve admin_ids caller dep_id s = (Approved nb, s') \<and>
          get_wallet_balance rid s' = get_wallet_balance rid s + p \<and>
          total_profit rid s' = total_profit rid s + p"
  proof (cases "0 < p")
    case True
    then have run: "deposit_approve admin_ids caller dep_id s = (Approved nb, ?s4)"
      unfolding deposit_approve_def
      by (simp only: run_alone.simps step1 step2 step3 step4 step5 step6 fst_conv snd_conv if_True)
    have "get_wallet_balance rid ?s4 = get_wallet_balance rid s + p"
      using b2 by (simp add: get_wallet_balance_def)
    moreover have "total_profit rid ?s4 = total_profit rid s + p"
      using t3 by (simp add: total_profit_def)
    ultimately show ?thesis
      using run by blast
  next
    case False
    with assms(10) have p: "p = 0"
      by simp
    have run: "deposit_approve admin_ids caller dep_id s = (Approved nb, ?s2)"
      unfolding deposit_approve_def using False
      by (simp only: run_alone.simps step1 step2 step3 step4 fst_conv snd_conv if_False)
    have "get_wallet_balance rid ?s2 = get_wallet_balance rid s + p"
      using b2 p by simp
    moreover have "total_profit rid ?s2 = total_profit rid s + p"
      using t2 p by simp
    ultimately show ?thesis
      using run by blast
  qed
  then obtain s' where run: "deposit_approve admin_ids caller dep_id s = (Approved nb, s')"
    and b: "get_wallet_balance rid s' = get_wallet_balance rid s + p"
    and t: "total_profit rid s' = total_profit rid s + p"
    by blast
  show "\<exists>nb. fst (deposit_approve admin_ids caller dep_id s) = Approved nb"
    unfolding run by simp
  show "get_wallet_balance rid (snd (deposit_approve admin_ids caller dep_id s)) =
           get_wallet_balance rid s + p"
    unfolding run using b by simp
  show "total_profit rid (snd (deposit_approve admin_ids caller dep_id s)) =
           total_profit rid s + p"
    unfolding run using t by simp
qed

lemma deposit_approve_status:
  assumes "caller \<in> admin_ids" and "get_deposit_request dep_id s = Some dep"
    and "dep_status dep = ''pending_admin''"
  shows "get_deposit_request dep_id (snd (deposit_approve admin_ids caller dep_id s)) =
           Some (dep\<lparr>dep_status := ''approved''\<rparr>)"
  using assms
  by (simp add: deposit_approve_def get_deposit_request_def get_user_def
      add_wallet_balance_def add_ref_profit_def set_deposit_status_def Let_def
      split: option.splits)

lemma deposit_reject_status:
  assumes "caller \<in> admin_ids" and "get_deposit_request dep_id s = Some dep"
    and "dep_status dep = ''pending_admin''"
  shows "deposit_reject admin_ids caller dep_id s =
           (Rejected, set_deposit_status dep_id ''rejected'' s)"
  using assms by (simp add: deposit_reject_def)

text \<open>
  Reviews that do not overlap: once a handler has approved or rejected a pending deposit
  and is over, a handler that starts afterwards changes nothing.
\<close>

lemma deposit_review_in_sequence:
  assumes "first \<in> admin_ids" and "get_deposit_request dep_id s = Some d"
    and "dep_status d = ''pending_admin''"
  shows "deposit_approve admin_ids caller dep_id (snd (deposit_approve admin_ids first dep_id s)) =
           (if caller \<in> admin_ids then NotActionable else NotAllowed,
            snd (deposit_approve admin_ids first dep_id s))"
    and "deposit_reject admin_ids caller dep_id (snd (deposit_approve admin_ids first dep_id s)) =
           (if caller \<in> admin_ids then NotActionable else NotAllowed,
            snd (deposit_approve admin_ids first dep_id s))"
    and "deposit_approve admin_ids caller dep_id (snd (deposit_reject admin_ids first dep_id s)) =
           (if caller \<in> admin_ids then NotActionable else NotAllowed,
            snd (deposit_reject admin_ids first dep_id s))"
    and "deposit_reject admin_ids caller dep_id (snd (deposit_reject admin_ids first dep_id s)) =
           (if caller \<in> admin_ids then NotActionable else NotAllowed,
            snd (deposit_reject admin_ids first dep_id s))"
proof -
  let ?sa = "snd (deposit_approve admin_ids first dep_id s)"
  let ?sr = "snd (deposit_reject admin_ids first dep_id s)"
  have npa: "\<forall>dep. get_deposit_request dep_id ?sa = Some dep \<longrightarrow>
                dep_status dep \<noteq> ''pending_admin''"
    using assms deposit_approve_status [of first admin_ids dep_id s d] by simp
  have npr: "\<forall>dep. get_deposit_request dep_id ?sr = Some dep \<longrightarrow>
                dep_status dep \<noteq> ''pending_admin''"
    using assms deposit_reject_status [of first admin_ids dep_id s d]
    by (simp add: get_deposit_request_def set_deposit_status_def)
  show "deposit_approve admin_ids caller dep_id ?sa =
        (if caller \<in> admin_ids then NotActionable else NotAllowed, ?sa)"
    by (rule review_not_pending(1) [OF npa])
  show "deposit_reject admin_ids caller dep_id ?sa =
        (if caller \<in> admin_ids then NotActionable else NotAllowed, ?sa)"
    by (rule review_not_pending(2) [OF npa])
  show "deposit_approve admin_ids caller dep_id ?sr =
        (if caller \<in> admin_ids then NotActionable else NotAllowed, ?sr)"
    by (rule review_not_pending(1) [OF npr])
  show "deposit_reject admin_ids caller dep_id ?sr =
        (if caller \<in> admin_ids then NotActionable else NotAllowed, ?sr)"
    by (rule review_not_pending(2) [OF npr])
qed

lemma scenario_deposit_db_facts:
  "get_deposit_request 1 scenario_deposit_db =
     Some \<lparr>dep_user_id = 7, dep_amount = 100000, dep_status = ''pending_admin''\<rparr>"
  "get_user 7 scenario_deposit_db =
     Some \<lparr>username = None, first_name = None, referrer_id = Some 9\<rparr>"
  "get_wallet_balance 7 scenario_deposit_db = 100000"
  "get_wallet_balance 9 scenario_deposit_db = 0"
  "total_profit 9 scenario_deposit_db = 0"
  "integer_room (wallets scenario_deposit_db) 9 15000"
  "integer_room (referral_profits scenario_deposit_db) 9 15000"
  by (simp_all add: scenario_deposit_db_def empty_db_def get_deposit_request_def get_user_def
      get_wallet_balance_def total_profit_def integer_room_def in_int64_def)

lemma ref_profit_scenario: "ref_profit 100000 = Some 15000"
  using ref_profit_exact [of 100000] by simp

text \<open>
  C6.  The deposit of the scenario (owner 7 with balance 100000, amount 100000, referrer
  9) is pending, and the admins 1 and 2 both press "approve".  The event loop runs the
  first step of the one handler, then the first step of the other, then the rest of
  each.  Both handlers have read \<^verbatim>\<open>pending_admin\<close> before either has written \<^verbatim>\<open>approved\<close>,
  so both go on: the status is written twice, the owner is credited twice (balance
  300000) and so is the referrer (30000), and both admins are told that the deposit is
  approved.  A single approval gives 200000 and 15000.
\<close>

theorem deposit_approve_overlapping_credits_twice:
  "fst (run_schedule {1, 2} [0, 1, 0, 0, 0, 0, 0, 1, 1, 1, 1, 1]
          [Approve_start 1 1, Approve_start 2 1] scenario_deposit_db) =
     [Finished (Approved 200000), Finished (Approved 300000)] \<and>
   get_wallet_balance 7 (snd (run_schedule {1, 2} [0, 1, 0, 0, 0, 0, 0, 1, 1, 1, 1, 1]
          [Approve_start 1 1, Approve_start 2 1] scenario_deposit_db)) = 300000 \<and>
   get_wallet_balance 9 (snd (run_schedule {1, 2} [0, 1, 0, 0, 0, 0, 0, 1, 1, 1, 1, 1]
          [Approve_start 1 1, Approve_start 2 1] scenario_deposit_db)) = 30000 \<and>
   total_profit 9 (snd (run_schedule {1, 2} [0, 1, 0, 0, 0, 0, 0, 1, 1, 1, 1, 1]
          [Approve_start 1 1, Approve_start 2 1] scenario_deposit_db)) = 30000 \<and>
   fst (deposit_approve {1, 2} 1 1 scenario_deposit_db) = Approved 200000 \<and>
   get_wallet_balance 7 (snd (deposit_approve {1, 2} 1 1 scenario_deposit_db)) = 200000 \<and>
   get_wallet_balance 9 (snd (deposit_approve {1, 2} 1 1 scenario_deposit_db)) = 15000"
  by (simp add: scenario_deposit_db_def empty_db_def deposit_approve_def
      get_deposit_request_def set_deposit_status_def get_user_def add_wallet_balance_def
      add_ref_profit_def ensure_wallet_def get_wallet_balance_def total_profit_def
      in_int64_def ref_profit_scenario Let_def)

text \<open>
  C4, as the code has it.  The commission is \<^verbatim>\<open>int(amount * REF_PERCENT)\<close> with the
  binary64 number \<^verbatim>\<open>REF_PERCENT = 0.15\<close>.  When an admin approves a pending deposit whose
  owner has a referrer that is neither 0 nor the owner, the amount is between 0 and
  7500000000000000, and the referrer's balance and running total are 64-bit integers
  that stay so with the commission added, then the referrer's wallet and the referrer's
  running total both grow by exactly \<open>amount * 15 div 100\<close>, the floor of 15 percent of
  the amount.  (The handler runs from start to end with no other handler's call in
  between; the lemmas on the single steps above hold at whatever store a step meets.)
\<close>

theorem deposit_approve_commission_exact:
  assumes "caller \<in> admin_ids" and "get_deposit_request dep_id s = Some dep"
    and "dep_status dep = ''pending_admin''"
    and "get_user (dep_user_id dep) s = Some u" and "referrer_id u = Some rid"
    and "rid \<noteq> 0" and "rid \<noteq> dep_user_id dep"
    and "0 \<le> dep_amount dep" and "dep_amount dep \<le> 7500000000000000"
    and "integer_room (wallets s) rid (dep_amount dep * 15 div 100)"
    and "integer_room (referral_profits s) rid (dep_amount dep * 15 div 100)"
  shows "get_wallet_balance rid (snd (deposit_approve admin_ids caller dep_id s)) =
           get_wallet_balance rid s + dep_amount dep * 15 div 100 \<and>
         total_profit rid (snd (deposit_approve admin_ids caller dep_id s)) =
           total_profit rid s + dep_amount dep * 15 div 100"
proof -
  let ?p = "dep_amount dep * 15 div 100"
  have p: "ref_profit (dep_amount dep) = Some ?p"
    by (rule ref_profit_exact [OF assms(8,9)])
  have p0: "0 \<le> ?p"
    using assms(8) by (simp add: pos_imp_zdiv_nonneg_iff)
  have "?p \<le> dep_amount dep"
    using assms(8) by simp
  with p0 assms(8,9) have range: "in_int64 (dep_amount dep)" "in_int64 ?p"
    by (simp_all add: in_int64_def)
  from deposit_approve_commission(2,3) [OF assms(1-3) range(1) assms(4-7) p p0 range(2) assms(10,11)]
  show ?thesis
    by simp
qed

text \<open>Approving the deposit of 100000 credits the referrer with exactly 15000.\<close>

theorem deposit_approve_commission_exact_witness:
  "get_wallet_balance 9 (snd (deposit_approve {1} 1 1 scenario_deposit_db)) = 15000 \<and>
   total_profit 9 (snd (deposit_approve {1} 1 1 scenario_deposit_db)) = 15000"
  using deposit_approve_commission_exact [of 1 "{1}" 1 scenario_deposit_db
      "\<lparr>dep_user_id = 7, dep_amount = 100000, dep_status = ''pending_admin''\<rparr>"
      "\<lparr>username = None, first_name = None, referrer_id = Some 9\<rparr>" 9]
  by (simp add: scenario_deposit_db_facts)

text \<open>
  For a deposit of 7505999378950833 the binary64 product rounds up past the next integer:
  the referrer gets 1125899906842625, one more than the floor of 15 percent.
\<close>

theorem deposit_approve_commission_counterexample:
  "get_wallet_balance 9 (snd (deposit_approve {1} 1 1 large_deposit_db)) \<noteq>
     get_wallet_balance 9 large_deposit_db + 7505999378950833 * 15 div 100"
proof -
  have p: "get_deposit_request 1 large_deposit_db =
      Some \<lparr>dep_user_id = 7, dep_amount = 7505999378950833, dep_status = ''pending_admin''\<rparr>"
    by (simp add: large_deposit_db_def empty_db_def get_deposit_request_def)
  have u: "get_user 7 large_deposit_db =
      Some \<lparr>username = None, first_name = None, referrer_id = Some 9\<rparr>"
    by (simp add: large_deposit_db_def empty_db_def get_user_def)
  have b: "get_wallet_balance 9 large_deposit_db = 0"
    by (simp add: large_deposit_db_def empty_db_def get_wallet_balance_def)
  have r: "integer_room (wallets large_deposit_db) 9 1125899906842625"
    "integer_room (referral_profits large_deposit_db) 9 1125899906842625"
    by (simp_all add: large_deposit_db_def empty_db_def integer_room_def in_int64_def)
  have "get_wallet_balance 9 (snd (deposit_approve {1} 1 1 large_deposit_db)) =
          get_wallet_balance 9 large_deposit_db + 1125899906842625"
    using deposit_approve_commission(2) [of 1 "{1}" 1 large_deposit_db
        "\<lparr>dep_user_id = 7, dep_amount = 7505999378950833, dep_status = ''pending_admin''\<rparr>"
        "\<lparr>username = None, first_name = None, referrer_id = Some 9\<rparr>" 9 1125899906842625]
      p u r ref_profit_large
    by (simp add: in_int64_def)
  then show ?thesis unfolding b by simp
qed

section \<open>Calendar: the Jalali day number\<close>

lemma divmod_unique:
  fixes m k r :: int
  assumes "0 \<le> r" and "r < m"
  shows "(m * k + r) div m = k" and "(m * k + r) mod m = r"
proof -
  have m: "m \<noteq> 0" using assms by auto
  have d: "r div m = 0" using assms by (rule div_pos_pos_trivial)
  have md: "r mod m = r" using assms by (rule mod_pos_pos_trivial)
  show "(m * k + r) div m = k"
    using m d by (simp add: div_mult_self4)
  show "(m * k + r) mod m = r"
    using md by simp
qed

lemma int_divmod_facts:
  fixes x m :: int
  assumes "0 < m"
  shows "x = m * (x div m) + x mod m" and "0 \<le> x mod m" and "x mod m < m"
  using assms by simp_all

lemma ceil_div:
  fixes m k r :: int
  assumes "0 \<le> r" and "r < m"
  shows "(m * k + r + (m - 1)) div m = k + (if r = 0 then 0 else 1)"
proof (cases "r = 0")
  case True
  have "(m * k + (m - 1)) div m = k"
    using assms by (intro divmod_unique(1)) simp_all
  with True show ?thesis by simp
next
  case False
  have "(m * (k + 1) + (r - 1)) div m = k + 1"
    using assms False by (intro divmod_unique(1)) simp_all
  moreover have "m * (k + 1) + (r - 1) = m * k + r + (m - 1)"
    by (simp add: algebra_simps)
  ultimately show ?thesis using False by simp
qed

lemma jalali_day_number_eq:
  fixes q y :: int
  assumes "0 \<le> q" and "0 \<le> y" and "y \<le> 3" and "4 * q + y \<le> 32"
  shows "jalali_day_number (979 + 33 * c + 4 * q + y) jm jd =
           584466 + 12053 * c + 1461 * q + 365 * y + (if y = 0 then 0 else 1) + jd +
           (if jm < 7 then (jm - 1) * 31 else (jm - 7) * 30 + 186)"
proof -
  have J: "979 + 33 * c + 4 * q + y + 1595 = 33 * (78 + c) + (4 * q + y)"
    by simp
  have r: "0 \<le> 4 * q + y" "4 * q + y < 33"
    using assms by simp_all
  have d: "(33 * (78 + c) + (4 * q + y)) div 33 = 78 + c"
    and m: "(33 * (78 + c) + (4 * q + y)) mod 33 = 4 * q + y"
    using r by (rule divmod_unique)+
  have "(4 * q + y + (4 - 1)) div 4 = q + (if y = 0 then 0 else 1)"
    using assms by (intro ceil_div) simp_all
  then have c4: "(4 * q + y + 3) div 4 = q + (if y = 0 then 0 else 1)"
    by simp
  show ?thesis
    unfolding jalali_day_number_def Let_def J d m c4 by simp
qed

lemma jalali_of_day_number_eq:
  fixes q y d3 :: int
  assumes "0 \<le> q" and "0 \<le> y" and "y \<le> 3" and "q \<le> 8" and "q = 8 \<longrightarrow> y = 0"
    and "0 \<le> d3" and "d3 \<le> 365" and "d3 = 365 \<longrightarrow> y = 0 \<and> q \<le> 7"
  shows "jalali_of_day_number 979 (12053 * c + 1461 * q + 365 * y + (if y = 0 then 0 else 1) + d3) =
           (979 + 33 * c + 4 * q + y,
            if d3 < 186 then 1 + d3 div 31 else 7 + (d3 - 186) div 30,
            if d3 < 186 then 1 + d3 mod 31 else 1 + (d3 - 186) mod 30)"
proof -
  define d2 where "d2 = 365 * y + (if y = 0 then 0 else 1) + d3"
  define d1 where "d1 = 1461 * q + d2"
  have d2b: "0 \<le> d2" "d2 < 1461"
    using assms unfolding d2_def by auto
  have d1b: "0 \<le> d1" "d1 < 12053"
    using assms d2b unfolding d1_def d2_def by auto
  have N: "12053 * c + 1461 * q + 365 * y + (if y = 0 then 0 else 1) + d3 = 12053 * c + d1"
    unfolding d1_def d2_def by simp
  have s1: "(12053 * c + d1) div 12053 = c" "(12053 * c + d1) mod 12053 = d1"
    using d1b by (rule divmod_unique)+
  have s2: "d1 div 1461 = q" "d1 mod 1461 = d2"
    unfolding d1_def using d2b by (rule divmod_unique)+
  have s3: "(if d2 > 365 then (979 + 33 * c + 4 * q + (d2 - 1) div 365, (d2 - 1) mod 365)
            else (979 + 33 * c + 4 * q, d2)) = (979 + 33 * c + 4 * q + y, d3)"
  proof (cases "y = 0")
    case True
    then show ?thesis using assms unfolding d2_def by simp
  next
    case False
    then have y1: "1 \<le> y" using assms by simp
    have d3b: "d3 < 365" using assms False by auto
    have e: "d2 - 1 = 365 * y + d3" using False unfolding d2_def by simp
    have "(365 * y + d3) div 365 = y" "(365 * y + d3) mod 365 = d3"
      using assms(6) d3b by (rule divmod_unique)+
    moreover have "d2 > 365" using y1 assms(6) False unfolding d2_def by simp
    ultimately show ?thesis unfolding e by simp
  qed
  show ?thesis
    unfolding jalali_of_day_number_def N Let_def s1 s2 s3
    by (simp add: algebra_simps)
qed

lemma jalali_decomp:
  fixes N :: int
  obtains c q y d3 :: int where
    "N = 12053 * c + 1461 * q + 365 * y + (if y = 0 then 0 else 1) + d3"
    "0 \<le> q" "q \<le> 8" "0 \<le> y" "y \<le> 3" "q = 8 \<longrightarrow> y = 0"
    "0 \<le> d3" "d3 \<le> 365" "d3 = 365 \<longrightarrow> y = 0 \<and> q \<le> 7"
proof -
  define c where "c = N div 12053"
  define d1 where "d1 = N mod 12053"
  define q where "q = d1 div 1461"
  define d2 where "d2 = d1 mod 1461"
  define y where "y = (if d2 > 365 then (d2 - 1) div 365 else 0)"
  define d3 where "d3 = (if d2 > 365 then (d2 - 1) mod 365 else d2)"
  have f1: "N = 12053 * c + d1" "0 \<le> d1" "d1 < 12053"
    unfolding c_def d1_def by simp_all
  have f2: "d1 = 1461 * q + d2" "0 \<le> d2" "d2 < 1461"
    unfolding q_def d2_def by simp_all
  have f3: "d2 > 365 \<longrightarrow> d2 - 1 = 365 * y + d3 \<and> 0 \<le> d3 \<and> d3 < 365"
    unfolding y_def d3_def by simp
  have f4: "\<not> d2 > 365 \<longrightarrow> y = 0 \<and> d3 = d2"
    unfolding y_def d3_def by simp
  have q: "0 \<le> q" "q \<le> 8" "q = 8 \<longrightarrow> d2 < 365"
    using f1 f2 by auto
  have y: "0 \<le> y" "y \<le> 3" "d2 > 365 \<longrightarrow> 1 \<le> y"
    using f2 f3 f4 by (cases "d2 > 365"; auto)+
  have d3: "0 \<le> d3" "d3 \<le> 365" "d3 = 365 \<longrightarrow> y = 0 \<and> q \<le> 7"
    using f2 f3 f4 q by (cases "d2 > 365"; auto)+
  have e: "d2 = 365 * y + (if y = 0 then 0 else 1) + d3"
    using f3 f4 y by (cases "d2 > 365") auto
  have q8: "q = 8 \<longrightarrow> y = 0"
    using q(3) f4 by auto
  have "N = 12053 * c + 1461 * q + 365 * y + (if y = 0 then 0 else 1) + d3"
    using f1(1) f2(1) e by simp
  then show ?thesis
    using that q(1,2) y(1,2) q8 d3 by blast
qed

lemma jalali_of_day_number_inverse:
  "case jalali_of_day_number 979 N of (jy, jm, jd) \<Rightarrow> jalali_day_number jy jm jd = N + 584467"
proof -
  obtain c q y d3 :: int where
    N: "N = 12053 * c + 1461 * q + 365 * y + (if y = 0 then 0 else 1) + d3"
    and b: "0 \<le> q" "q \<le> 8" "0 \<le> y" "y \<le> 3" "q = 8 \<longrightarrow> y = 0"
    "0 \<le> d3" "d3 \<le> 365" "d3 = 365 \<longrightarrow> y = 0 \<and> q \<le> 7"
    by (rule jalali_decomp)
  have s: "4 * q + y \<le> 32" using b by auto
  have j: "jalali_of_day_number 979 N =
           (979 + 33 * c + 4 * q + y,
            if d3 < 186 then 1 + d3 div 31 else 7 + (d3 - 186) div 30,
            if d3 < 186 then 1 + d3 mod 31 else 1 + (d3 - 186) mod 30)"
    unfolding N using b(1,3,4,2,5,6,7,8) by (rule jalali_of_day_number_eq)
  show ?thesis
  proof (cases "d3 < 186")
    case True
    have "d3 = 31 * (d3 div 31) + d3 mod 31" by simp
    moreover have "d3 div 31 < 6" using True by simp
    ultimately show ?thesis
      unfolding j using True jalali_day_number_eq [OF b(1,3,4) s, of c] N by simp
  next
    case False
    have "d3 - 186 = 30 * ((d3 - 186) div 30) + (d3 - 186) mod 30" by simp
    moreover have "0 \<le> (d3 - 186) div 30" using False by simp
    ultimately show ?thesis
      unfolding j using False jalali_day_number_eq [OF b(1,3,4) s, of c] N by simp
  qed
qed

lemma jalali_year_decomp:
  fixes jy :: int
  obtains c q y :: int where "jy = 979 + 33 * c + 4 * q + y"
    "0 \<le> q" "q \<le> 8" "0 \<le> y" "y \<le> 3" "q = 8 \<longrightarrow> y = 0"
proof -
  define J where "J = jy + 1595"
  define c where "c = J div 33 - 78"
  define r where "r = J mod 33"
  define q where "q = r div 4"
  define y where "y = r mod 4"
  have r: "J = 33 * (J div 33) + r" "0 \<le> r" "r < 33"
    unfolding r_def by simp_all
  have qy: "r = 4 * q + y" "0 \<le> y" "y < 4"
    unfolding q_def y_def by simp_all
  have q: "0 \<le> q" "q \<le> 8" "q = 8 \<longrightarrow> y = 0"
    using r qy by auto
  have jy: "jy = 979 + 33 * c + 4 * q + y"
    using r(1) qy(1) unfolding c_def J_def by simp
  have y3: "y \<le> 3" using qy by simp
  show ?thesis using that [OF jy q(1,2) qy(2) y3 q(3)] .
qed

lemma jalali_day_number_inverse:
  assumes "1 \<le> jm" and "jm \<le> 12" and "1 \<le> jd"
    and "jd \<le> (if jm \<le> 6 then 31 else if jm \<le> 11 then 30 else 29)"
  shows "jalali_of_day_number 979 (jalali_day_number jy jm jd - 584467) = (jy, jm, jd)"
proof -
  define J where "J = jy + 1595"
  define c where "c = J div 33 - 78"
  define r where "r = J mod 33"
  define q where "q = r div 4"
  define y where "y = r mod 4"
  have r: "J = 33 * (J div 33) + r" "0 \<le> r" "r < 33"
    unfolding r_def by simp_all
  have qy: "r = 4 * q + y" "0 \<le> y" "y < 4"
    unfolding q_def y_def by simp_all
  have q: "0 \<le> q" "q \<le> 8" "q = 8 \<longrightarrow> y = 0"
    using r qy by auto
  have jy: "jy = 979 + 33 * c + 4 * q + y"
    using r(1) qy(1) unfolding c_def J_def by simp
  have s: "4 * q + y \<le> 32" using r qy by simp
  have y3: "y \<le> 3" using qy by simp
  define d3 where "d3 = jd + (if jm < 7 then (jm - 1) * 31 else (jm - 7) * 30 + 186) - 1"
  have d3: "0 \<le> d3" "d3 \<le> 365" "d3 = 365 \<longrightarrow> y = 0 \<and> q \<le> 7"
    using assms unfolding d3_def by (auto split: if_splits)
  have n: "jalali_day_number jy jm jd - 584467 =
           12053 * c + 1461 * q + 365 * y + (if y = 0 then 0 else 1) + d3"
    unfolding jy jalali_day_number_eq [OF q(1) qy(2) y3 s] d3_def by simp
  have j: "jalali_of_day_number 979 (jalali_day_number jy jm jd - 584467) =
           (jy,
            if d3 < 186 then 1 + d3 div 31 else 7 + (d3 - 186) div 30,
            if d3 < 186 then 1 + d3 mod 31 else 1 + (d3 - 186) mod 30)"
    unfolding n jalali_of_day_number_eq [OF q(1) qy(2) y3 q(2,3) d3] using jy by simp
  show ?thesis
  proof (cases "jm < 7")
    case True
    have e: "d3 = 31 * (jm - 1) + (jd - 1)" using True unfolding d3_def by simp
    have b: "0 \<le> jd - 1" "jd - 1 < 31" using assms True by simp_all
    have "d3 div 31 = jm - 1" "d3 mod 31 = jd - 1"
      unfolding e using b by (rule divmod_unique)+
    moreover have "d3 < 186" using e b True by simp
    ultimately show ?thesis unfolding j by simp
  next
    case False
    have e: "d3 - 186 = 30 * (jm - 7) + (jd - 1)" using False unfolding d3_def by simp
    have b: "0 \<le> jd - 1" "jd - 1 < 30" using assms False by (simp_all split: if_splits)
    have "(d3 - 186) div 30 = jm - 7" "(d3 - 186) mod 30 = jd - 1"
      unfolding e using b by (rule divmod_unique)+
    moreover have "\<not> d3 < 186" using e b False by simp
    ultimately show ?thesis unfolding j by simp
  qed
qed

section \<open>Calendar: the Gregorian year of a day number\<close>

lemma year_parts:
  fixes a b q y :: int
  assumes "0 \<le> b" "b \<le> 3" "0 \<le> q" "q \<le> 24" "0 \<le> y" "y \<le> 3"
  shows "(400 * a + 100 * b + 4 * q + y) mod 4 = y"
    and "(400 * a + 100 * b + 4 * q + y) mod 100 = 4 * q + y"
    and "(400 * a + 100 * b + 4 * q + y) mod 400 = 100 * b + 4 * q + y"
    and "(400 * a + 100 * b + 4 * q + y + 3) div 4 =
           100 * a + 25 * b + q + (if y = 0 then 0 else 1)"
    and "(400 * a + 100 * b + 4 * q + y + 99) div 100 =
           4 * a + b + (if 4 * q + y = 0 then 0 else 1)"
    and "(400 * a + 100 * b + 4 * q + y + 399) div 400 =
           a + (if 100 * b + 4 * q + y = 0 then 0 else 1)"
proof -
  let ?gy = "400 * a + 100 * b + 4 * q + y"
  have e4: "?gy = 4 * (100 * a + 25 * b + q) + y" by simp
  have e100: "?gy = 100 * (4 * a + b) + (4 * q + y)" by simp
  have e400: "?gy = 400 * a + (100 * b + 4 * q + y)" by simp
  have b4: "0 \<le> y" "y < 4" using assms by simp_all
  have b100: "0 \<le> 4 * q + y" "4 * q + y < 100" using assms by simp_all
  have b400: "0 \<le> 100 * b + 4 * q + y" "100 * b + 4 * q + y < 400" using assms by simp_all
  show "?gy mod 4 = y"
    unfolding e4 using b4 by (rule divmod_unique(2))
  show "?gy mod 100 = 4 * q + y"
    unfolding e100 using b100 by (rule divmod_unique(2))
  show "?gy mod 400 = 100 * b + 4 * q + y"
    unfolding e400 using b400 by (rule divmod_unique(2))
  have "(4 * (100 * a + 25 * b + q) + y + (4 - 1)) div 4 =
          100 * a + 25 * b + q + (if y = 0 then 0 else 1)"
    using b4 by (rule ceil_div)
  then show "(?gy + 3) div 4 = 100 * a + 25 * b + q + (if y = 0 then 0 else 1)"
    by (simp add: algebra_simps)
  have "(100 * (4 * a + b) + (4 * q + y) + (100 - 1)) div 100 =
          4 * a + b + (if 4 * q + y = 0 then 0 else 1)"
    using b100 by (rule ceil_div)
  then show "(?gy + 99) div 100 = 4 * a + b + (if 4 * q + y = 0 then 0 else 1)"
    by (simp add: algebra_simps)
  have "(400 * a + (100 * b + 4 * q + y) + (400 - 1)) div 400 =
          a + (if 100 * b + 4 * q + y = 0 then 0 else 1)"
    using b400 by (rule ceil_div)
  then show "(?gy + 399) div 400 = a + (if 100 * b + 4 * q + y = 0 then 0 else 1)"
    by (simp add: algebra_simps)
qed

lemma year_start_eq:
  fixes a b q y :: int
  assumes "0 \<le> b" "b \<le> 3" "0 \<le> q" "q \<le> 24" "0 \<le> y" "y \<le> 3"
  shows "year_start (400 * a + 100 * b + 4 * q + y) =
           146097 * a + 36524 * b + 1461 * q + 365 * y
             + (if y = 0 then 0 else 1) - (if 4 * q + y = 0 then 0 else 1)
             + (if 100 * b + 4 * q + y = 0 then 0 else 1)"
  unfolding year_start_def year_parts(4-6) [OF assms] by simp

lemma is_leap_eq:
  fixes a b q y :: int
  assumes "0 \<le> b" "b \<le> 3" "0 \<le> q" "q \<le> 24" "0 \<le> y" "y \<le> 3"
  shows "is_leap (400 * a + 100 * b + 4 * q + y) \<longleftrightarrow> y = 0 \<and> (q \<noteq> 0 \<or> b = 0)"
    and "(((400 * a + 100 * b + 4 * q + y) mod 4 = 0 \<and>
           (400 * a + 100 * b + 4 * q + y) mod 100 \<noteq> 0) \<or>
          (400 * a + 100 * b + 4 * q + y) mod 400 = 0) \<longleftrightarrow> y = 0 \<and> (q \<noteq> 0 \<or> b = 0)"
proof -
  have h1: "4 * q + y = 0 \<longleftrightarrow> q = 0 \<and> y = 0"
    using assms by arith
  have h2: "100 * b + 4 * q + y = 0 \<longleftrightarrow> b = 0 \<and> q = 0 \<and> y = 0"
    using assms by arith
  show "is_leap (400 * a + 100 * b + 4 * q + y) \<longleftrightarrow> y = 0 \<and> (q \<noteq> 0 \<or> b = 0)"
    unfolding is_leap_def year_parts(1-3) [OF assms] h1 h2 by blast
  show "(((400 * a + 100 * b + 4 * q + y) mod 4 = 0 \<and>
           (400 * a + 100 * b + 4 * q + y) mod 100 \<noteq> 0) \<or>
          (400 * a + 100 * b + 4 * q + y) mod 400 = 0) \<longleftrightarrow> y = 0 \<and> (q \<noteq> 0 \<or> b = 0)"
    unfolding year_parts(1-3) [OF assms] h1 h2 by blast
qed

lemma year_decomp:
  fixes gy :: int
  obtains a b q y :: int where "gy = 400 * a + 100 * b + 4 * q + y"
    "0 \<le> b" "b \<le> 3" "0 \<le> q" "q \<le> 24" "0 \<le> y" "y \<le> 3"
proof -
  define a where "a = gy div 400"
  define r where "r = gy mod 400"
  define b where "b = r div 100"
  define s where "s = r mod 100"
  define q where "q = s div 4"
  define y where "y = s mod 4"
  have f1: "gy = 400 * a + r" "0 \<le> r" "r < 400" unfolding a_def r_def by simp_all
  have f2: "r = 100 * b + s" "0 \<le> s" "s < 100" unfolding b_def s_def by simp_all
  have f3: "s = 4 * q + y" "0 \<le> y" "y < 4" unfolding q_def y_def by simp_all
  have "gy = 400 * a + 100 * b + 4 * q + y" using f1 f2 f3 by simp
  moreover have "0 \<le> b" "b \<le> 3" using f1 f2 by auto
  moreover have "0 \<le> q" "q \<le> 24" using f2 f3 by auto
  moreover have "0 \<le> y" "y \<le> 3" using f3 by auto
  ultimately show ?thesis using that by blast
qed

lemma is_leap_alt:
  "((gy mod 4 = 0 \<and> gy mod 100 \<noteq> 0) \<or> gy mod 400 = 0) \<longleftrightarrow> is_leap gy"
proof -
  obtain a b q y :: int where g: "gy = 400 * a + 100 * b + 4 * q + y"
    and bd: "0 \<le> b" "b \<le> 3" "0 \<le> q" "q \<le> 24" "0 \<le> y" "y \<le> 3"
    by (rule year_decomp)
  show ?thesis
    unfolding g is_leap_eq [OF bd] by simp
qed

lemma gregorian_year_day_eq:
  fixes a b q y d5 :: int
  assumes bd: "0 \<le> b" "b \<le> 3" "0 \<le> q" "q \<le> 24" "0 \<le> y" "y \<le> 3"
    and d5: "0 \<le> d5" "d5 < 365 + (if y = 0 \<and> (q \<noteq> 0 \<or> b = 0) then 1 else 0)"
  shows "gregorian_year_day
           (146097 * a + 36524 * b + 1461 * q + 365 * y
             + (if y = 0 then 0 else 1) - (if 4 * q + y = 0 then 0 else 1)
             + (if 100 * b + 4 * q + y = 0 then 0 else 1) + d5) =
         (400 * a + 100 * b + 4 * q + y, d5)"
proof -
  define d4 where "d4 = 365 * y + (if y = 0 then 0 else 1) + d5"
  define d3 where "d3 = 1461 * q + d4"
  define e where "e = (if q = 0 \<and> y = 0 then d3 else d3 - 1)"
  define d2 where "d2 = (if b = 0 then d3 else 36524 * b + 1 + e)"
  have h1: "4 * q + y = 0 \<longleftrightarrow> q = 0 \<and> y = 0"
    using bd by arith
  have h2: "100 * b + 4 * q + y = 0 \<longleftrightarrow> b = 0 \<and> q = 0 \<and> y = 0"
    using bd by arith
  have N: "146097 * a + 36524 * b + 1461 * q + 365 * y
             + (if y = 0 then 0 else 1) - (if 4 * q + y = 0 then 0 else 1)
             + (if 100 * b + 4 * q + y = 0 then 0 else 1) + d5 = 146097 * a + d2"
    unfolding h1 h2 d2_def e_def d3_def d4_def by auto
  have d4b: "0 \<le> d4" "d4 < 1461" "d4 > 365 \<longleftrightarrow> y \<noteq> 0"
    using bd d5 unfolding d4_def by (auto split: if_splits)
  have d3b: "0 \<le> d3" "d3 \<le> 36524" "b \<noteq> 0 \<longrightarrow> d3 \<le> 36524"
    using bd d4b unfolding d3_def by auto
  have d3c: "b \<noteq> 0 \<longrightarrow> q = 0 \<and> y = 0 \<longrightarrow> d3 < 365" "q = 0 \<and> y = 0 \<longrightarrow> d3 \<le> 365"
    using d5 unfolding d3_def d4_def by (auto split: if_splits)
  have d3d: "\<not> (q = 0 \<and> y = 0) \<longrightarrow> 366 \<le> d3"
    using bd d5 unfolding d3_def d4_def by (auto split: if_splits)
  have eb: "0 \<le> e" "e < 36524" "b \<noteq> 0 \<longrightarrow> (365 \<le> e \<longleftrightarrow> \<not> (q = 0 \<and> y = 0))"
    using d3b d3c d3d unfolding e_def by (auto split: if_splits)
  have d2b: "0 \<le> d2" "d2 < 146097" "36524 < d2 \<longleftrightarrow> b \<noteq> 0"
    using bd d3b eb unfolding d2_def by (auto split: if_splits)
  have s1: "(146097 * a + d2) div 146097 = a" "(146097 * a + d2) mod 146097 = d2"
    using d2b(1,2) by (rule divmod_unique)+
  have s2: "(if 36524 < d2
             then (400 * a + 100 * ((d2 - 1) div 36524),
                   if 365 \<le> (d2 - 1) mod 36524 then (d2 - 1) mod 36524 + 1
                   else (d2 - 1) mod 36524)
             else (400 * a, d2)) = (400 * a + 100 * b, d3)"
  proof (cases "b = 0")
    case True
    then show ?thesis using d2b(3) unfolding d2_def by simp
  next
    case False
    have x: "d2 - 1 = 36524 * b + e" using False unfolding d2_def by simp
    have "(36524 * b + e) div 36524 = b" "(36524 * b + e) mod 36524 = e"
      using eb(1,2) by (rule divmod_unique)+
    moreover have "(if 365 \<le> e then e + 1 else e) = d3"
      using eb(3) False unfolding e_def by auto
    ultimately show ?thesis using False d2b(3) unfolding x by (simp split: if_splits)
  qed
  have s3: "d3 div 1461 = q" "d3 mod 1461 = d4"
    unfolding d3_def using d4b(1,2) by (rule divmod_unique)+
  have s4: "(if 365 < d4
             then (400 * a + 100 * b + 4 * q + (d4 - 1) div 365, (d4 - 1) mod 365)
             else (400 * a + 100 * b + 4 * q, d4)) = (400 * a + 100 * b + 4 * q + y, d5)"
  proof (cases "y = 0")
    case True
    then show ?thesis using d4b(3) unfolding d4_def by simp
  next
    case False
    have x: "d4 - 1 = 365 * y + d5" using False unfolding d4_def by simp
    have "d5 < 365" using d5(2) False by simp
    with d5(1) have "(365 * y + d5) div 365 = y" "(365 * y + d5) mod 365 = d5"
      by (rule divmod_unique)+
    then show ?thesis using False d4b(3) unfolding x by simp
  qed
  show ?thesis
    unfolding gregorian_year_day_def N Let_def s1 s2 prod.case s3 s4 by simp
qed

lemma gregorian_year_day_inverse:
  assumes "0 \<le> d5" and "d5 < 365 + (if is_leap gy then 1 else 0)"
  shows "gregorian_year_day (year_start gy + d5) = (gy, d5)"
proof -
  obtain a b q y :: int where g: "gy = 400 * a + 100 * b + 4 * q + y"
    and bd: "0 \<le> b" "b \<le> 3" "0 \<le> q" "q \<le> 24" "0 \<le> y" "y \<le> 3"
    by (rule year_decomp)
  have "d5 < 365 + (if y = 0 \<and> (q \<noteq> 0 \<or> b = 0) then 1 else 0)"
    using assms(2) unfolding g is_leap_eq(1) [OF bd] .
  from gregorian_year_day_eq [OF bd assms(1) this, of a] show ?thesis
    unfolding g year_start_eq [OF bd] .
qed

lemma div_step:
  fixes x m :: int
  assumes "0 < m"
  shows "(x + 1 + (m - 1)) div m = (x + (m - 1)) div m + (if x mod m = 0 then 1 else 0)"
proof -
  define k where "k = x div m"
  define r where "r = x mod m"
  have x: "m * k + r = x" and r: "0 \<le> r" "r < m"
    unfolding k_def r_def using assms by simp_all
  have a: "(m * k + r + (m - 1)) div m = k + (if r = 0 then 0 else 1)"
    using r by (rule ceil_div)
  have "(m * (k + 1) + r) div m = k + 1"
    using r by (rule divmod_unique(1))
  moreover have "m * (k + 1) + r = m * k + r + 1 + (m - 1)" by (simp add: algebra_simps)
  ultimately have b: "(m * k + r + 1 + (m - 1)) div m = k + 1" by simp
  have "(x + 1 + (m - 1)) div m = (x + (m - 1)) div m + (if r = 0 then 1 else 0)"
    using a b unfolding x by (cases "r = 0") simp_all
  then show ?thesis unfolding r_def .
qed

lemma leap_prop:
  assumes "C \<Longrightarrow> B" and "B \<Longrightarrow> A"
  shows "(A \<and> (\<not> B \<or> C)) = (A \<and> \<not> B \<or> C)"
    and "(if A then 1 else 0) - (if B then 1 else 0) + (if C then 1 else (0::int)) =
         (if A \<and> \<not> B \<or> C then 1 else 0)"
  using assms by auto

lemma year_start_Suc:
  "year_start (y + 1) = year_start y + 365 + (if is_leap y then 1 else 0)"
proof -
  have s4: "(y + 1 + 3) div 4 = (y + 3) div 4 + (if y mod 4 = 0 then 1 else 0)"
    using div_step [of 4 y] by simp
  have s100: "(y + 1 + 99) div 100 = (y + 99) div 100 + (if y mod 100 = 0 then 1 else 0)"
    using div_step [of 100 y] by simp
  have s400: "(y + 1 + 399) div 400 = (y + 399) div 400 + (if y mod 400 = 0 then 1 else 0)"
    using div_step [of 400 y] by simp
  have i1: "y mod 100 = 0" if "y mod 400 = 0"
  proof -
    have "400 dvd y" using that by (rule mod_0_imp_dvd)
    moreover have "(100::int) dvd 400" by simp
    ultimately have "100 dvd y" using dvd_trans by blast
    then show ?thesis by (rule dvd_imp_mod_0)
  qed
  have i2: "y mod 4 = 0" if "y mod 100 = 0"
  proof -
    have "100 dvd y" using that by (rule mod_0_imp_dvd)
    moreover have "(4::int) dvd 100" by simp
    ultimately have "4 dvd y" using dvd_trans by blast
    then show ?thesis by (rule dvd_imp_mod_0)
  qed
  have l: "is_leap y \<longleftrightarrow> (y mod 4 = 0 \<and> y mod 100 \<noteq> 0) \<or> y mod 400 = 0"
    unfolding is_leap_def using i1 i2 by (rule leap_prop(1))
  have e: "(if y mod 4 = 0 then 1 else 0) - (if y mod 100 = 0 then 1 else 0)
             + (if y mod 400 = 0 then 1 else (0::int)) = (if is_leap y then 1 else 0)"
    unfolding l using i1 i2 by (rule leap_prop(2))
  have "year_start (y + 1) = 365 * (y + 1) + (y + 1 + 3) div 4 - (y + 1 + 99) div 100
           + (y + 1 + 399) div 400"
    unfolding year_start_def ..
  also have "\<dots> = year_start y + 365 + ((if y mod 4 = 0 then 1 else 0)
             - (if y mod 100 = 0 then 1 else 0) + (if y mod 400 = 0 then 1 else (0::int)))"
    unfolding s4 s100 s400 year_start_def by (simp only: algebra_simps)
  finally show ?thesis unfolding e .
qed

section \<open>Calendar: the round trip\<close>

lemma year_start_1601: "year_start 1601 = 584754"
  by (simp add: year_start_def)

lemma gregorian_year_exists:
  assumes "584754 \<le> D"
  shows "\<exists>gy d5. 1601 \<le> gy \<and> D = year_start gy + d5 \<and> 0 \<le> d5 \<and>
           d5 < 365 + (if is_leap gy then 1 else 0)"
  using assms
proof (induction D rule: int_ge_induct)
  case base
  have "(584754::int) = year_start 1601 + 0" by (simp add: year_start_1601)
  moreover have "(0::int) < 365 + (if is_leap 1601 then 1 else 0)" by simp
  ultimately show ?case by (intro exI [of _ 1601] exI [of _ 0]) simp
next
  case (step D)
  then obtain gy d5 where g: "1601 \<le> gy" "D = year_start gy + d5" "0 \<le> d5"
    "d5 < 365 + (if is_leap gy then 1 else 0)"
    by blast
  show ?case
  proof (cases "d5 + 1 < 365 + (if is_leap gy then 1 else 0)")
    case True
    have "D + 1 = year_start gy + (d5 + 1)" using g(2) by simp
    with g(1,3) True show ?thesis
      by (intro exI [of _ gy] exI [of _ "d5 + 1"]) simp
  next
    case False
    then have "d5 + 1 = 365 + (if is_leap gy then 1 else 0)" using g(4) by simp
    then have "D + 1 = year_start (gy + 1) + 0"
      using g(2) unfolding year_start_Suc by simp
    moreover have "(0::int) < 365 + (if is_leap (gy + 1) then 1 else 0)" by simp
    ultimately show ?thesis using g(1)
      by (intro exI [of _ "gy + 1"] exI [of _ 0]) simp
  qed
qed

lemma gregorian_year_day_spec:
  assumes "584754 \<le> D"
  obtains gy d5 where "gregorian_year_day D = (gy, d5)" "1601 \<le> gy"
    "D = year_start gy + d5" "0 \<le> d5" "d5 < 365 + (if is_leap gy then 1 else 0)"
proof -
  from gregorian_year_exists [OF assms] obtain gy d5 where
    g: "1601 \<le> gy" "D = year_start gy + d5" "0 \<le> d5"
    "d5 < 365 + (if is_leap gy then 1 else 0)"
    by blast
  have "gregorian_year_day D = (gy, d5)"
    unfolding g(2) using g(3,4) by (rule gregorian_year_day_inverse)
  then show ?thesis using that g by blast
qed

subsection \<open>The month loop\<close>

lemma month_loop_eq:
  assumes "1 \<le> gm" and "gm \<le> 12" and "1 \<le> gd"
    and "gd \<le> [0, 31, if leap then 29 else 28, 31, 30, 31, 30, 31, 31, 30, 31, 30, 31] ! nat gm"
  shows "month_loop [0, 31, if leap then 29 else 28, 31, 30, 31, 30, 31, 31, 30, 31, 30, 31] 1
           (g_d_m ! nat (gm - 1) + (if gm > 2 \<and> leap then 1 else 0) + gd) = (gm, gd)"
proof -
  from assms(1,2) have "gm = 1 \<or> gm = 2 \<or> gm = 3 \<or> gm = 4 \<or> gm = 5 \<or> gm = 6 \<or>
      gm = 7 \<or> gm = 8 \<or> gm = 9 \<or> gm = 10 \<or> gm = 11 \<or> gm = 12"
    by arith
  then show ?thesis
    using assms(3,4)
    by (elim disjE; cases leap) (simp_all add: g_d_m_def)
qed

lemma month_int_cases:
  fixes gm :: int
  assumes "1 \<le> gm" and "gm \<le> 12"
  shows "gm = 1 \<or> gm = 2 \<or> gm = 3 \<or> gm = 4 \<or> gm = 5 \<or> gm = 6 \<or>
         gm = 7 \<or> gm = 8 \<or> gm = 9 \<or> gm = 10 \<or> gm = 11 \<or> gm = 12"
  using assms by arith

lemma days_in_month_eq:
  assumes "1 \<le> gm" and "gm \<le> 12"
  shows "days_in_month gy gm =
         [0, 31, if is_leap gy then 29 else 28, 31, 30, 31, 30, 31, 31, 30, 31, 30, 31] ! nat gm"
  using month_int_cases [OF assms]
  by (elim disjE) (simp_all add: days_in_month_def)

lemma day_of_year_bounds:
  assumes "1 \<le> gm" and "gm \<le> 12" and "1 \<le> gd" and "gd \<le> days_in_month gy gm"
  shows "1 \<le> g_d_m ! nat (gm - 1) + (if gm > 2 \<and> is_leap gy then 1 else 0) + gd"
    and "g_d_m ! nat (gm - 1) + (if gm > 2 \<and> is_leap gy then 1 else 0) + gd
           \<le> 365 + (if is_leap gy then 1 else 0)"
  using month_int_cases [OF assms(1,2)] assms(3,4)
  by (elim disjE; simp add: days_in_month_def g_d_m_def split: if_splits)+

lemma month_exists:
  fixes doy :: int
  assumes "1 \<le> doy" and "doy \<le> 365 + (if leap then 1 else 0)"
  shows "\<exists>gm gd. 1 \<le> gm \<and> gm \<le> 12 \<and> 1 \<le> gd \<and>
           gd \<le> [0, 31, if leap then 29 else 28, 31, 30, 31, 30, 31, 31, 30, 31, 30, 31] ! nat gm \<and>
           doy = g_d_m ! nat (gm - 1) + (if gm > 2 \<and> leap then 1 else 0) + gd"
proof -
  define L :: int where "L = (if leap then 1 else 0)"
  have L: "L = 0 \<or> L = 1" "leap \<longleftrightarrow> L = 1" unfolding L_def by auto
  consider (m1) "doy \<le> 31" | (m2) "31 < doy" "doy \<le> 59 + L"
    | (m3) "59 + L < doy" "doy \<le> 90 + L" | (m4) "90 + L < doy" "doy \<le> 120 + L"
    | (m5) "120 + L < doy" "doy \<le> 151 + L" | (m6) "151 + L < doy" "doy \<le> 181 + L"
    | (m7) "181 + L < doy" "doy \<le> 212 + L" | (m8) "212 + L < doy" "doy \<le> 243 + L"
    | (m9) "243 + L < doy" "doy \<le> 273 + L" | (m10) "273 + L < doy" "doy \<le> 304 + L"
    | (m11) "304 + L < doy" "doy \<le> 334 + L" | (m12) "334 + L < doy"
    by linarith
  then show ?thesis
  proof cases
    case m1
    with assms(1) show ?thesis
      by (intro exI [of _ 1] exI [of _ doy]) (simp add: g_d_m_def)
  next
    case m2
    then show ?thesis using L
      by (intro exI [of _ 2] exI [of _ "doy - 31"]) (auto simp: g_d_m_def)
  next
    case m3
    then show ?thesis using L
      by (intro exI [of _ 3] exI [of _ "doy - 59 - L"]) (auto simp: g_d_m_def)
  next
    case m4
    then show ?thesis using L
      by (intro exI [of _ 4] exI [of _ "doy - 90 - L"]) (auto simp: g_d_m_def)
  next
    case m5
    then show ?thesis using L
      by (intro exI [of _ 5] exI [of _ "doy - 120 - L"]) (auto simp: g_d_m_def)
  next
    case m6
    then show ?thesis using L
      by (intro exI [of _ 6] exI [of _ "doy - 151 - L"]) (auto simp: g_d_m_def)
  next
    case m7
    then show ?thesis using L
      by (intro exI [of _ 7] exI [of _ "doy - 181 - L"]) (auto simp: g_d_m_def)
  next
    case m8
    then show ?thesis using L
      by (intro exI [of _ 8] exI [of _ "doy - 212 - L"]) (auto simp: g_d_m_def)
  next
    case m9
    then show ?thesis using L
      by (intro exI [of _ 9] exI [of _ "doy - 243 - L"]) (auto simp: g_d_m_def)
  next
    case m10
    then show ?thesis using L
      by (intro exI [of _ 10] exI [of _ "doy - 273 - L"]) (auto simp: g_d_m_def)
  next
    case m11
    then show ?thesis using L
      by (intro exI [of _ 11] exI [of _ "doy - 304 - L"]) (auto simp: g_d_m_def)
  next
    case m12
    then show ?thesis using L assms(2) unfolding L_def [symmetric]
      by (intro exI [of _ 12] exI [of _ "doy - 334 - L"]) (auto simp: g_d_m_def)
  qed
qed

lemma gregorian_day_number_alt:
  "gregorian_day_number gy gm gd =
     year_start gy +
     (g_d_m ! nat (gm - 1) + (if gm > 2 \<and> is_leap gy then 1 else 0) + gd - 1)"
  by (simp add: gregorian_day_number_def)

lemma gregorian_of_day_number_inverse:
  assumes "1 \<le> gm" and "gm \<le> 12" and "1 \<le> gd" and "gd \<le> days_in_month gy gm"
  shows "gregorian_of_day_number (gregorian_day_number gy gm gd) = (gy, gm, gd)"
proof -
  define doy where "doy = g_d_m ! nat (gm - 1) + (if gm > 2 \<and> is_leap gy then 1 else 0) + gd"
  have b: "1 \<le> doy" "doy \<le> 365 + (if is_leap gy then 1 else 0)"
    unfolding doy_def using assms by (rule day_of_year_bounds)+
  have yd: "gregorian_year_day (year_start gy + (doy - 1)) = (gy, doy - 1)"
    using b by (intro gregorian_year_day_inverse) simp_all
  have ml: "month_loop [0, 31, if is_leap gy then 29 else 28, 31, 30, 31, 30, 31, 31, 30, 31, 30, 31] 1
              doy = (gm, gd)"
    unfolding doy_def using assms(1-3) assms(4) [unfolded days_in_month_eq [OF assms(1,2)]]
    by (rule month_loop_eq)
  show ?thesis
    unfolding gregorian_day_number_alt doy_def [symmetric] gregorian_of_day_number_def yd
      Let_def prod.case is_leap_alt
    using ml by simp
qed

lemma gregorian_of_day_number_spec:
  assumes "584754 \<le> D"
  obtains gy gm gd where "gregorian_of_day_number D = (gy, gm, gd)" "1601 \<le> gy"
    "1 \<le> gm" "gm \<le> 12" "1 \<le> gd" "gd \<le> days_in_month gy gm"
    "gregorian_day_number gy gm gd = D"
proof -
  from assms obtain gy d5 where g: "gregorian_year_day D = (gy, d5)" "1601 \<le> gy"
    "D = year_start gy + d5" "0 \<le> d5" "d5 < 365 + (if is_leap gy then 1 else 0)"
    by (rule gregorian_year_day_spec)
  have "1 \<le> d5 + 1" "d5 + 1 \<le> 365 + (if is_leap gy then 1 else 0)"
    using g(4,5) by simp_all
  from month_exists [OF this] obtain gm gd where
    m: "1 \<le> gm" "gm \<le> 12" "1 \<le> gd"
    "gd \<le> [0, 31, if is_leap gy then 29 else 28, 31, 30, 31, 30, 31, 31, 30, 31, 30, 31] ! nat gm"
    "d5 + 1 = g_d_m ! nat (gm - 1) + (if gm > 2 \<and> is_leap gy then 1 else 0) + gd"
    by blast
  have ml: "month_loop [0, 31, if is_leap gy then 29 else 28, 31, 30, 31, 30, 31, 31, 30, 31, 30, 31] 1
              (d5 + 1) = (gm, gd)"
    unfolding m(5) using m(1-4) by (rule month_loop_eq)
  have r: "gregorian_of_day_number D = (gy, gm, gd)"
    unfolding gregorian_of_day_number_def g(1) Let_def prod.case is_leap_alt
    using ml by simp
  have v: "gd \<le> days_in_month gy gm"
    unfolding days_in_month_eq [OF m(1,2)] by (rule m(4))
  have n: "gregorian_day_number gy gm gd = D"
    unfolding gregorian_day_number_alt g(3) using m(5) by simp
  show ?thesis
    using that [OF r g(2) m(1,2,3) v n] .
qed

lemma year_start_shift:
  "year_start (y - 1600) = year_start y - 584388"
proof -
  have a: "(y - 1600 + 3) div 4 = (y + 3) div 4 - 400"
    using div_mult_self2 [of 4 "y + 3" "- 400"] by simp
  have b: "(y - 1600 + 99) div 100 = (y + 99) div 100 - 16"
    using div_mult_self2 [of 100 "y + 99" "- 16"] by simp
  have c: "(y - 1600 + 399) div 400 = (y + 399) div 400 - 4"
    using div_mult_self2 [of 400 "y + 399" "- 4"] by simp
  show ?thesis
    unfolding year_start_def a b c by simp
qed

lemma is_leap_shift: "is_leap (y - 1600) = is_leap y"
proof -
  have "(y - 1600) mod 4 = y mod 4"
    using mod_mult_self2 [of y 4 "- 400"] by simp
  moreover have "(y - 1600) mod 100 = y mod 100"
    using mod_mult_self2 [of y 100 "- 16"] by simp
  moreover have "(y - 1600) mod 400 = y mod 400"
    using mod_mult_self2 [of y 400 "- 4"] by simp
  ultimately show ?thesis unfolding is_leap_def by simp
qed

lemma py_index_g_d_m:
  assumes "1 \<le> gm" and "gm \<le> 12"
  shows "py_index g_d_m (gm - 1) = Some (g_d_m ! nat (gm - 1))"
  using assms by (simp add: py_index_def g_d_m_def)

lemma gregorian_to_jalali_main_branch:
  assumes "1600 < gy" and "1 \<le> gm" and "gm \<le> 12"
  shows "gregorian_to_jalali gy gm gd =
          Some (jalali_of_day_number 979
            (365 * (gy - 1600) + ((if gm > 2 then gy - 1600 + 1 else gy - 1600) + 3) div 4
               - ((if gm > 2 then gy - 1600 + 1 else gy - 1600) + 99) div 100
               + ((if gm > 2 then gy - 1600 + 1 else gy - 1600) + 399) div 400
               - 80 + gd + g_d_m ! nat (gm - 1)))"
  using assms(1)
  by (simp add: gregorian_to_jalali_def Let_def py_index_g_d_m [OF assms(2,3)])

lemma gregorian_to_jalali_split:
  assumes "1600 < gy" and "1 \<le> gm" and "gm \<le> 12"
  shows "gregorian_to_jalali gy gm gd =
           Some (jalali_of_day_number 979 (gregorian_day_number gy gm gd - 584467))"
proof -
  define G where "G = gy - 1600"
  have ys: "365 * G + ((if gm > 2 then G + 1 else G) + 3) div 4
              - ((if gm > 2 then G + 1 else G) + 99) div 100
              + ((if gm > 2 then G + 1 else G) + 399) div 400 =
            year_start gy - 584388 + (if gm > 2 \<and> is_leap gy then 1 else 0)"
  proof (cases "gm > 2")
    case True
    have "365 * G + ((G + 1) + 3) div 4 - ((G + 1) + 99) div 100 + ((G + 1) + 399) div 400 =
          year_start (G + 1) - 365"
      unfolding year_start_def by simp
    also have "\<dots> = year_start G + (if is_leap G then 1 else 0)"
      unfolding year_start_Suc by simp
    also have "\<dots> = year_start gy - 584388 + (if is_leap gy then 1 else 0)"
      unfolding G_def year_start_shift is_leap_shift by simp
    finally show ?thesis using True by simp
  next
    case False
    have "365 * G + (G + 3) div 4 - (G + 99) div 100 + (G + 399) div 400 = year_start G"
      unfolding year_start_def by simp
    also have "\<dots> = year_start gy - 584388"
      unfolding G_def year_start_shift by simp
    finally show ?thesis using False by simp
  qed
  have d0: "365 * G + ((if gm > 2 then G + 1 else G) + 3) div 4
              - ((if gm > 2 then G + 1 else G) + 99) div 100
              + ((if gm > 2 then G + 1 else G) + 399) div 400 - 80 + gd
              + g_d_m ! nat (gm - 1) = gregorian_day_number gy gm gd - 584467"
    unfolding ys gregorian_day_number_def by simp
  show ?thesis
    unfolding gregorian_to_jalali_main_branch [OF assms] G_def [symmetric] d0 ..
qed

text \<open>
  C7.  For every Gregorian date that exists (month 1 to 12, day 1 to the length of the
  month) in a year after 1600, the years for which \<^verbatim>\<open>gregorian_to_jalali\<close> takes its branch
  \<^verbatim>\<open>gy > 1600\<close>, converting to the Jalali calendar and back gives the date again.
\<close>

theorem gregorian_jalali_round_trip:
  assumes "1600 < gy" and "1 \<le> gm" and "gm \<le> 12" and "1 \<le> gd"
    and "gd \<le> days_in_month gy gm"
  shows "\<exists>jy jm jd. gregorian_to_jalali gy gm gd = Some (jy, jm, jd) \<and>
           jalali_to_gregorian jy jm jd = (gy, gm, gd)"
proof -
  define N where "N = gregorian_day_number gy gm gd - 584467"
  obtain jy jm jd where j: "jalali_of_day_number 979 N = (jy, jm, jd)"
    by (cases "jalali_of_day_number 979 N")
  have g: "gregorian_to_jalali gy gm gd = Some (jy, jm, jd)"
    unfolding gregorian_to_jalali_split [OF assms(1-3)] N_def [symmetric] j ..
  have "jalali_day_number jy jm jd = N + 584467"
    using jalali_of_day_number_inverse [of N] unfolding j by simp
  then have "jalali_day_number jy jm jd = gregorian_day_number gy gm gd"
    unfolding N_def by simp
  then have "jalali_to_gregorian jy jm jd = (gy, gm, gd)"
    unfolding jalali_to_gregorian_def
    using gregorian_of_day_number_inverse [OF assms(2-5)] by simp
  with g show ?thesis by blast
qed

theorem gregorian_jalali_round_trip_witness:
  "gregorian_to_jalali 2024 9 21 = Some (1403, 6, 31) \<and>
   jalali_to_gregorian 1403 6 31 = (2024, 9, 21)"
  using gregorian_jalali_round_trip [of 2024 9 21]
  by (simp add: gregorian_to_jalali_def jalali_of_day_number_def py_index_def g_d_m_def
      Let_def days_in_month_def is_leap_def)

section \<open>Adding months\<close>

text \<open>The conversions at the dates used below.\<close>

lemma gregorian_to_jalali_examples:
  "gregorian_to_jalali 2026 2 19 = Some (1404, 11, 30)"
  "gregorian_to_jalali 2026 3 20 = Some (1404, 12, 29)"
  "gregorian_to_jalali 2026 3 21 = Some (1405, 1, 1)"
  "gregorian_to_jalali 2024 9 21 = Some (1403, 6, 31)"
  "gregorian_to_jalali 2024 10 21 = Some (1403, 7, 30)"
  by (simp_all add: gregorian_to_jalali_def jalali_of_day_number_def py_index_def g_d_m_def
      Let_def)

lemma jalali_to_gregorian_examples:
  "jalali_to_gregorian 1404 12 30 = (2026, 3, 21)"
  "jalali_to_gregorian 1405 1 1 = (2026, 3, 21)"
  "jalali_to_gregorian 1404 12 29 = (2026, 3, 20)"
  "jalali_to_gregorian 1403 7 30 = (2024, 10, 21)"
  by (simp_all add: jalali_to_gregorian_def jalali_day_number_def gregorian_of_day_number_def
      gregorian_year_day_def month_loop.simps Let_def)

text \<open>
  C8.  \<^verbatim>\<open>add_months_shamsi\<close> takes the length of the target month from
  \<^verbatim>\<open>jalali_month_days\<close>, which decides the leap years by a rule of its own (a cycle of 2820
  years), while \<^verbatim>\<open>gregorian_to_jalali\<close> and \<^verbatim>\<open>jalali_to_gregorian\<close> use a cycle of 33 years.
  The two disagree on 1403 and 1404: for the conversions Esfand 1404 has 29 days (its
  last day is 20 March 2026, and 21 March 2026 is 1 Farvardin 1405), for
  \<^verbatim>\<open>jalali_month_days\<close> it has 30.  So one month added to 19 February 2026, which is 30
  Bahman 1404, is not clamped to 29 Esfand: the result is 21 March 2026, day 1 of the
  month after the target month.  (From day 31 of Shahrivar 1403 one month leads to day 30
  of Mehr, as it should.)
\<close>

theorem add_months_shamsi_overflows_esfand_1404:
  "gregorian_to_jalali 2026 2 19 = Some (1404, 11, 30) \<and>
   jalali_month_days 1404 12 = 30 \<and>
   add_months_shamsi
     \<lparr>year = 2026, month = 2, day = 19, hour = 10, minute = 30, second = 0\<rparr> 1 =
     Some \<lparr>year = 2026, month = 3, day = 21, hour = 10, minute = 30, second = 0\<rparr> \<and>
   gregorian_to_jalali 2026 3 21 = Some (1405, 1, 1) \<and>
   gregorian_to_jalali 2026 3 20 = Some (1404, 12, 29) \<and>
   add_months_shamsi
     \<lparr>year = 2024, month = 9, day = 21, hour = 10, minute = 30, second = 0\<rparr> 1 =
     Some \<lparr>year = 2024, month = 10, day = 21, hour = 10, minute = 30, second = 0\<rparr> \<and>
   gregorian_to_jalali 2024 9 21 = Some (1403, 6, 31) \<and>
   gregorian_to_jalali 2024 10 21 = Some (1403, 7, 30)"
  by (simp add: add_months_shamsi_def gregorian_to_jalali_examples jalali_to_gregorian_examples
      jalali_month_days_def replace_date_def date_fields_ok_def days_in_month_def is_leap_def
      Let_def)

section \<open>Purchase: the new expiry\<close>

lemma PLANS_positive: "PLANS months = Some price \<Longrightarrow> 0 < price"
  by (auto simp: PLANS_def split: if_splits)

lemma pop_available_link_subscriptions:
  "subscriptions (snd (pop_available_link_for_order oid uid s)) = subscriptions s"
  by (simp add: pop_available_link_for_order_def split: list.splits)

text \<open>
  The step that reads the subscription row computes the new expiry from that row and the
  clock; the next step stores it, with both flags 0, at whatever store it meets.
\<close>

lemma purchase_get_subscription_step:
  assumes "new_expiry (renewal_base now_utc (get_subscription uid s)) months = Some e"
  shows "purchase_step now_utc (Purchase_get_subscription uid months oid nb) s =
           (Purchase_set_subscription uid oid e nb, s)"
  using assms by simp

lemma purchase_set_subscription_step:
  "purchase_step now_utc (Purchase_set_subscription uid oid e nb) s =
     (Purchase_pop_link uid oid nb, s') \<Longrightarrow>
   subscriptions s' uid =
     Some \<lparr>expires_at = e, reminded_before_expiry = 0, notified_expired = 0\<rparr>"
  by (auto simp: set_subscription_def)

lemma run_purchase_pop_link:
  "subscriptions (snd (run_purchase now_utc (Purchase_pop_link uid oid nb) s)) = subscriptions s \<and>
   wallets (snd (run_purchase now_utc (Purchase_pop_link uid oid nb) s)) = wallets s"
  by (simp add: pop_available_link_for_order_def set_order_delivered_def split: list.splits)

lemma confirm_purchase_stores:
  assumes "PLANS months = Some price" and "price \<le> get_wallet_balance uid s"
    and "integer_balance uid s"
    and "new_expiry (renewal_base now_utc (get_subscription uid s)) months = Some e"
  shows "get_subscription uid (snd (confirm_purchase now_utc uid months s)) =
           Some \<lparr>expires_at = e, reminded_before_expiry = 0, notified_expired = 0\<rparr>"
    and "get_wallet_balance uid (snd (confirm_purchase now_utc uid months s)) =
           get_wallet_balance uid s - price"
proof -
  let ?b = "get_wallet_balance uid s"
  let ?s1 = "s\<lparr>wallets := (wallets s)(uid \<mapsto> SqlInt (?b - price))\<rparr>"
  have step1: "purchase_step now_utc (Purchase_start uid months) s =
                 (Purchase_deduct uid months price, s)"
    using assms(1,2) by simp
  have deduct: "try_deduct_wallet uid price s = Some ((True, ?b - price), ?s1)"
    using assms(3) PLANS_positive [OF assms(1)] assms(2) by (rule try_deduct_wallet_ok)
  then have step2: "purchase_step now_utc (Purchase_deduct uid months price) s =
                 (Purchase_create_order uid months price (?b - price), ?s1)"
    by simp
  obtain oid s2 where order: "create_order uid months price ?s1 = (oid, s2)"
    by (cases "create_order uid months price ?s1") blast
  then have step3: "purchase_step now_utc (Purchase_create_order uid months price (?b - price)) ?s1 =
                 (Purchase_get_subscription uid months oid (?b - price), s2)"
    by simp
  have s2: "subscriptions s2 = subscriptions s" "wallets s2 = wallets ?s1"
    using order by (auto simp: create_order_def)
  have "new_expiry (renewal_base now_utc (get_subscription uid s2)) months = Some e"
    using assms(4) s2(1) by (simp add: get_subscription_def)
  then have step4: "purchase_step now_utc (Purchase_get_subscription uid months oid (?b - price)) s2 =
                 (Purchase_set_subscription uid oid e (?b - price), s2)"
    by (rule purchase_get_subscription_step)
  let ?s3 = "set_subscription uid e s2"
  have step5: "purchase_step now_utc (Purchase_set_subscription uid oid e (?b - price)) s2 =
                 (Purchase_pop_link uid oid (?b - price), ?s3)"
    by simp
  have run: "confirm_purchase now_utc uid months s =
               run_purchase now_utc (Purchase_pop_link uid oid (?b - price)) ?s3"
    unfolding confirm_purchase_def
    by (simp only: run_purchase.simps step1 step2 step3 step4 step5 fst_conv snd_conv)
  have sub3: "subscriptions ?s3 uid =
      Some \<lparr>expires_at = e, reminded_before_expiry = 0, notified_expired = 0\<rparr>"
    by (simp add: set_subscription_def)
  have w3: "wallets ?s3 uid = Some (SqlInt (?b - price))"
    using s2(2) by (simp add: set_subscription_def)
  show "get_subscription uid (snd (confirm_purchase now_utc uid months s)) =
          Some \<lparr>expires_at = e, reminded_before_expiry = 0, notified_expired = 0\<rparr>"
    unfolding run get_subscription_def using run_purchase_pop_link [of now_utc uid oid _ ?s3] sub3
    by simp
  show "get_wallet_balance uid (snd (confirm_purchase now_utc uid months s)) =
          get_wallet_balance uid s - price"
    unfolding run using run_purchase_pop_link [of now_utc uid oid "?b - price" ?s3] w3
    by (simp add: get_wallet_balance_def)
qed

text \<open>The dates of the example.\<close>

lemma renewal_example_dates:
  "to_iran \<lparr>year = 2024, month = 9, day = 20, hour = 22, minute = 0, second = 0\<rparr> =
     Some \<lparr>year = 2024, month = 9, day = 21, hour = 1, minute = 30, second = 0\<rparr>"
  "from_iran \<lparr>year = 2024, month = 11, day = 20, hour = 1, minute = 30, second = 0\<rparr> =
     Some \<lparr>year = 2024, month = 11, day = 19, hour = 22, minute = 0, second = 0\<rparr>"
  by (simp_all add: to_iran_def from_iran_def datetime_add_def IRAN_OFFSET_def ymd2ord_def
      ord2ymd_def days_before_year_def days_before_month_def is_leap_def Let_def)

lemma renewal_example_jalali:
  "gregorian_to_jalali 2024 9 21 = Some (1403, 6, 31)"
  "gregorian_to_jalali 2024 9 20 = Some (1403, 6, 30)"
  "jalali_to_gregorian 1403 8 30 = (2024, 11, 20)"
  by (simp_all add: gregorian_to_jalali_def jalali_of_day_number_def py_index_def g_d_m_def
      jalali_to_gregorian_def jalali_day_number_def gregorian_of_day_number_def
      gregorian_year_day_def month_loop.simps Let_def)

lemma renewal_example_months:
  "add_months_shamsi \<lparr>year = 2024, month = 9, day = 21, hour = 1, minute = 30, second = 0\<rparr> 2 =
     Some \<lparr>year = 2024, month = 11, day = 20, hour = 1, minute = 30, second = 0\<rparr>"
  "add_months_shamsi \<lparr>year = 2024, month = 9, day = 20, hour = 22, minute = 0, second = 0\<rparr> 2 =
     Some \<lparr>year = 2024, month = 11, day = 20, hour = 22, minute = 0, second = 0\<rparr>"
  by (simp_all add: add_months_shamsi_def renewal_example_jalali jalali_month_days_def
      replace_date_def date_fields_ok_def days_in_month_def is_leap_def Let_def)

lemma renewal_db_facts:
  "get_wallet_balance 7 renewal_db = 200000"
  "integer_balance 7 renewal_db"
  "get_subscription 7 renewal_db =
     Some \<lparr>expires_at = \<lparr>year = 2024, month = 9, day = 20, hour = 22, minute = 0, second = 0\<rparr>,
           reminded_before_expiry = 1, notified_expired = 0\<rparr>"
  "subscriptions renewal_db 7 =
     Some \<lparr>expires_at = \<lparr>year = 2024, month = 9, day = 20, hour = 22, minute = 0, second = 0\<rparr>,
           reminded_before_expiry = 1, notified_expired = 0\<rparr>"
  by (simp_all add: renewal_db_def empty_db_def get_wallet_balance_def integer_balance_def
      in_int64_def get_subscription_def)

lemma renewal_example_base:
  "datetime_less \<lparr>year = 2024, month = 9, day = 1, hour = 12, minute = 0, second = 0\<rparr>
     \<lparr>year = 2024, month = 9, day = 20, hour = 22, minute = 0, second = 0\<rparr>"
  by (simp add: datetime_less_def)

text \<open>
  C5, as the code has it.  For a purchase of a plan of \<open>months\<close> months at the price
  \<open>price\<close> by a user whose balance, a 64-bit integer, is at least the price: the base is
  the stored expiry when there is a subscription row whose expiry is after the clock
  reading \<open>now_utc\<close>, and \<open>now_utc\<close> otherwise; the handler moves the base to Iran's time
  (plus 3 hours 30 minutes), adds the months there with \<^verbatim>\<open>add_months_shamsi\<close>, and moves
  the result back (minus 3 hours 30 minutes).  When these three steps give a date, it
  is stored as the new expiry and both flags of the row are 0; the balance goes down by
  the price.  (The handler runs from start to end with no other handler's call in
  between; the two lemmas on its steps above hold at whatever store a step meets.)
\<close>

theorem confirm_purchase_new_expiry:
  assumes "PLANS months = Some price" and "price \<le> get_wallet_balance uid s"
    and "integer_balance uid s"
    and "base_utc = (case subscriptions s uid of
                       None \<Rightarrow> now_utc
                     | Some r \<Rightarrow> if datetime_less now_utc (expires_at r) then expires_at r
                                 else now_utc)"
    and "to_iran base_utc = Some base_iran"
    and "add_months_shamsi base_iran months = Some new_exp_iran"
    and "from_iran new_exp_iran = Some new_exp_utc"
  shows "subscriptions (snd (confirm_purchase now_utc uid months s)) uid =
           Some \<lparr>expires_at = new_exp_utc, reminded_before_expiry = 0, notified_expired = 0\<rparr> \<and>
         get_wallet_balance uid (snd (confirm_purchase now_utc uid months s)) =
           get_wallet_balance uid s - price"
proof -
  have "renewal_base now_utc (get_subscription uid s) = base_utc"
    unfolding assms(4) by (simp add: renewal_base_def get_subscription_def)
  then have "new_expiry (renewal_base now_utc (get_subscription uid s)) months = Some new_exp_utc"
    using assms(5-7) by (simp add: new_expiry_def)
  from confirm_purchase_stores [OF assms(1-3) this] show ?thesis
    by (simp add: get_subscription_def)
qed

theorem confirm_purchase_new_expiry_witness:
  "PLANS 2 = Some 150000 \<and> (150000::int) \<le> get_wallet_balance 7 renewal_db \<and>
   integer_balance 7 renewal_db \<and>
   subscriptions (snd (confirm_purchase
       \<lparr>year = 2024, month = 9, day = 1, hour = 12, minute = 0, second = 0\<rparr> 7 2 renewal_db)) 7 =
     Some \<lparr>expires_at = \<lparr>year = 2024, month = 11, day = 19, hour = 22, minute = 0, second = 0\<rparr>,
           reminded_before_expiry = 0, notified_expired = 0\<rparr> \<and>
   get_wallet_balance 7 (snd (confirm_purchase
       \<lparr>year = 2024, month = 9, day = 1, hour = 12, minute = 0, second = 0\<rparr> 7 2 renewal_db)) =
     50000"
  using confirm_purchase_new_expiry [of 2 150000 7 renewal_db
      "\<lparr>year = 2024, month = 9, day = 20, hour = 22, minute = 0, second = 0\<rparr>"
      "\<lparr>year = 2024, month = 9, day = 1, hour = 12, minute = 0, second = 0\<rparr>"
      "\<lparr>year = 2024, month = 9, day = 21, hour = 1, minute = 30, second = 0\<rparr>"
      "\<lparr>year = 2024, month = 11, day = 20, hour = 1, minute = 30, second = 0\<rparr>"
      "\<lparr>year = 2024, month = 11, day = 19, hour = 22, minute = 0, second = 0\<rparr>"]
  by (simp add: PLANS_def renewal_db_facts renewal_example_dates renewal_example_months
      renewal_example_base)

text \<open>
  The stored expiry is not \<^verbatim>\<open>add_months_shamsi\<close> of the current expiry.  The subscription
  of user 7 ends on 20 September 2024 at 22:00 UTC, which is after the clock reading.
  Two months added to that date give 20 November 2024, 22:00.  The handler adds them in
  Iran, where the date is 31 Shahrivar and is clamped to 30 Aban, and stores 19 November
  2024, 22:00 UTC.
\<close>

theorem confirm_purchase_expiry_counterexample:
  "subscriptions renewal_db 7 =
     Some \<lparr>expires_at = \<lparr>year = 2024, month = 9, day = 20, hour = 22, minute = 0, second = 0\<rparr>,
           reminded_before_expiry = 1, notified_expired = 0\<rparr> \<and>
   datetime_less \<lparr>year = 2024, month = 9, day = 1, hour = 12, minute = 0, second = 0\<rparr>
     \<lparr>year = 2024, month = 9, day = 20, hour = 22, minute = 0, second = 0\<rparr> \<and>
   add_months_shamsi \<lparr>year = 2024, month = 9, day = 20, hour = 22, minute = 0, second = 0\<rparr> 2 =
     Some \<lparr>year = 2024, month = 11, day = 20, hour = 22, minute = 0, second = 0\<rparr> \<and>
   get_subscription 7 (snd (confirm_purchase
       \<lparr>year = 2024, month = 9, day = 1, hour = 12, minute = 0, second = 0\<rparr> 7 2 renewal_db)) =
     Some \<lparr>expires_at = \<lparr>year = 2024, month = 11, day = 19, hour = 22, minute = 0, second = 0\<rparr>,
           reminded_before_expiry = 0, notified_expired = 0\<rparr>"
proof -
  have "new_expiry (renewal_base
          \<lparr>year = 2024, month = 9, day = 1, hour = 12, minute = 0, second = 0\<rparr>
          (get_subscription 7 renewal_db)) 2 =
        Some \<lparr>year = 2024, month = 11, day = 19, hour = 22, minute = 0, second = 0\<rparr>"
    by (simp add: new_expiry_def renewal_base_def renewal_db_facts renewal_example_base
        renewal_example_dates renewal_example_months)
  from confirm_purchase_stores(1) [OF _ _ renewal_db_facts(2) this, of 150000]
  show ?thesis
    by (simp add: PLANS_def renewal_db_facts renewal_example_base renewal_example_months)
qed

end
